(* ===== verification/Shell_Prelude.thy ===== *)
theory Shell_Prelude
  imports Main "HOL-Library.Word"
begin

text \<open>
  Shared vocabulary of the DougsShell model (src/DougsShell.c): the size constants of
  the source, the characters the code tests for, C strings as NUL-terminated prefixes
  of fixed-size character buffers, the undefined behaviours the code can reach, the
  observable events of a run, and generic lemmas on lists that the component theories
  use. Nothing here models a function of the source by itself; the libc string
  functions the source calls (strlen, strcmp, strcpy, memset, printf's decimal
  conversion) are modelled here from their C standard meaning.
\<close>

section \<open>Constants of the source\<close>

text \<open>\<^verbatim>\<open>#define COMMAND_SIZE 100\<close>, \<^verbatim>\<open>ARGUMENT_SIZE 50\<close>,
  \<^verbatim>\<open>HISTORY_CAPACITY 10\<close> (DougsShell.c lines 17--19). \<open>PTR_SIZE\<close> is
  \<open>sizeof(char *)\<close> on an LP64 target; it decides how many array slots the source's
  byte-counted \<open>memset\<close> calls clear.\<close>

definition COMMAND_SIZE :: nat where "COMMAND_SIZE = 100"
definition ARGUMENT_SIZE :: nat where "ARGUMENT_SIZE = 50"
definition HISTORY_CAPACITY :: nat where "HISTORY_CAPACITY = 10"
definition PTR_SIZE :: nat where "PTR_SIZE = 8"

named_theorems shell_consts "the size constants of the source"
declare COMMAND_SIZE_def [shell_consts] ARGUMENT_SIZE_def [shell_consts]
  HISTORY_CAPACITY_def [shell_consts] PTR_SIZE_def [shell_consts]

abbreviation NUL :: char where "NUL \<equiv> CHR 0x00"
abbreviation NL :: char where "NL \<equiv> CHR 0x0A"
abbreviation SP :: char where "SP \<equiv> CHR '' ''"
abbreviation BANG :: char where "BANG \<equiv> CHR ''!''"

section \<open>Undefined behaviour\<close>

text \<open>The ways the source leaves defined C behaviour. A model operation that reaches one
  returns it as \<open>Inl\<close>; the shell loop then stops in a state that records it.\<close>

datatype ub =
    HistorySlotUnset nat      \<comment> \<open>reading \<open>history[k]\<close> that holds NULL or an uninitialised pointer\<close>
  | HistoryIndexOutOfRange int \<comment> \<open>indexing \<open>history[k]\<close> outside the array\<close>
  | ArgvGarbage nat           \<comment> \<open>execvp reads an uninitialised or half-cleared \<open>arguments[k]\<close>\<close>
  | ArgvUnterminated          \<comment> \<open>execvp reads past \<open>arguments[ARGUMENT_SIZE-1]\<close>\<close>
  | ArgsOverflow              \<comment> \<open>ParseCommand writes \<open>args[i]\<close> with \<open>i \<ge> ARGUMENT_SIZE\<close>\<close>
  | ExecNullFile              \<comment> \<open>\<open>execvp(NULL, args)\<close> for an empty argument vector\<close>
  | CommandOverflow           \<comment> \<open>strcpy into \<open>command\<close> past its 100 bytes\<close>

section \<open>C strings in fixed buffers\<close>

type_synonym buffer = "char list"

text \<open>The C string starting at offset \<open>p\<close> of a buffer: the characters up to the first
  NUL. Reading stops at the end of the buffer; every buffer of the model holds a NUL
  (an invariant of the shell state), so that case is never reached.\<close>

definition cstr_at :: "buffer \<Rightarrow> nat \<Rightarrow> string" where
  "cstr_at buf p = takeWhile (\<lambda>c. c \<noteq> NUL) (drop p buf)"

abbreviation cstr :: "buffer \<Rightarrow> string" where
  "cstr buf \<equiv> cstr_at buf 0"

text \<open>\<open>strcpy(dst, s)\<close>: the characters of \<open>s\<close> and its terminator overwrite the front of
  the destination, the rest of the destination is untouched.\<close>

definition strcpy_buf :: "buffer \<Rightarrow> string \<Rightarrow> buffer" where
  "strcpy_buf dst s = s @ NUL # drop (Suc (length s)) dst"

text \<open>\<open>memset(buf, '\0', n)\<close> on a character buffer.\<close>

definition memset_nul :: "nat \<Rightarrow> buffer \<Rightarrow> buffer" where
  "memset_nul n buf = replicate (min n (length buf)) NUL @ drop n buf"

text \<open>\<open>printf("%d", i)\<close>: the decimal digits of an integer.\<close>

definition digit_char :: "nat \<Rightarrow> char" where
  "digit_char d = ''0123456789'' ! d"

fun nat_digits :: "nat \<Rightarrow> string" where
  "nat_digits n =
     (if n < 10 then [digit_char n] else nat_digits (n div 10) @ [digit_char (n mod 10)])"

definition dec_string :: "int \<Rightarrow> string" where
  "dec_string i = (if i < 0 then CHR ''-'' # nat_digits (nat (- i)) else nat_digits (nat i))"

section \<open>Pointer arrays\<close>

text \<open>A slot of an array of pointers (\<open>char *history[]\<close>, \<open>char *arguments[]\<close>): NULL, an
  indeterminate value (never written, or partly overwritten by a byte-wise memset), or a
  valid pointer to an object described by \<open>'a\<close>.\<close>

datatype 'a ptr = Null | Garbage | Ptr 'a

primrec is_ptr :: "'a ptr \<Rightarrow> bool" where
  "is_ptr Null = False"
| "is_ptr Garbage = False"
| "is_ptr (Ptr x) = True"

primrec the_ptr :: "'a ptr \<Rightarrow> 'a option" where
  "the_ptr Null = None"
| "the_ptr Garbage = None"
| "the_ptr (Ptr x) = Some x"

text \<open>\<open>memset(array, '\0', n)\<close> on an array of pointers: \<open>n\<close> counts bytes. A slot whose
  \<open>PTR_SIZE\<close> bytes all lie below \<open>n\<close> becomes NULL; a slot only partly cleared keeps
  NULL if it was NULL and is indeterminate otherwise; later slots are untouched.\<close>

fun memset_ptrs :: "nat \<Rightarrow> 'a ptr list \<Rightarrow> 'a ptr list" where
  "memset_ptrs n [] = []"
| "memset_ptrs n (x # xs) =
     (if PTR_SIZE \<le> n then Null # memset_ptrs (n - PTR_SIZE) xs
      else if 0 < n then (case x of Null \<Rightarrow> Null | _ \<Rightarrow> Garbage) # xs
      else x # xs)"

section \<open>Observable events\<close>

text \<open>What a run of the shell shows: text written to standard output, \<open>perror\<close>
  messages on standard error, the one-second pauses of \<open>sleep\<close>, and the process
  images started in children (see \<open>Process\<close>). Output is kept in program order;
  stdio buffering is not modelled.\<close>

datatype child_run =
    ChildExec "string list"   \<comment> \<open>execvp replaced the child's image with this argument vector\<close>
  | ChildExecFailed "string list" \<comment> \<open>execvp returned: the child prints and calls \<open>exit(1)\<close>\<close>
  | ChildUndefined ub         \<comment> \<open>the child reached undefined behaviour before or in execvp\<close>

datatype event =
    Out string
  | Perror string
  | Sleep nat
  | Spawn child_run

section \<open>Generic lemmas\<close>

lemma cstr_at_no_nul: "NUL \<notin> set (cstr_at buf p)"
  by (auto simp: cstr_at_def dest: set_takeWhileD)

lemma cstr_at_length: "length (cstr_at buf p) \<le> length buf - p"
  unfolding cstr_at_def by (metis length_drop length_takeWhile_le)

lemma cstr_at_append_nul:
  "NUL \<notin> set s \<Longrightarrow> cstr_at (s @ NUL # rest) 0 = s"
  by (induction s) (auto simp: cstr_at_def)

lemma cstr_at_drop: "cstr_at buf (p + q) = cstr_at (drop p buf) q"
  by (simp add: cstr_at_def add.commute)

lemma cstr_strcpy_buf [simp]:
  "NUL \<notin> set s \<Longrightarrow> cstr (strcpy_buf dst s) = s"
  by (simp add: strcpy_buf_def cstr_at_append_nul)

lemma length_strcpy_buf:
  "length s < length dst \<Longrightarrow> length (strcpy_buf dst s) = length dst"
  by (simp add: strcpy_buf_def)

lemma length_memset_nul [simp]: "length (memset_nul n buf) = length buf"
  by (simp add: memset_nul_def)

lemma nth_memset_nul:
  "i < length buf \<Longrightarrow> memset_nul n buf ! i = (if i < n then NUL else buf ! i)"
  by (auto simp: memset_nul_def nth_append min_def)

lemma length_memset_ptrs [simp]: "length (memset_ptrs n xs) = length xs"
  by (induction n xs rule: memset_ptrs.induct) (auto split: ptr.splits)

lemma is_ptr_the_ptr: "is_ptr x \<longleftrightarrow> the_ptr x \<noteq> None"
  by (cases x) auto

lemma cstr_update_nul:
  "p \<le> length (cstr xs) \<Longrightarrow> cstr (xs[p := NUL]) = take p (cstr xs)"
proof (induction xs arbitrary: p)
  case Nil
  then show ?case by (simp add: cstr_at_def)
next
  case (Cons x xs)
  show ?case
  proof (cases p)
    case 0
    then show ?thesis using Cons.prems by (simp add: cstr_at_def)
  next
    case (Suc q)
    with Cons.prems have "x \<noteq> NUL" and "q \<le> length (cstr xs)"
      by (auto simp: cstr_at_def split: if_splits)
    with Cons.IH Suc show ?thesis by (simp add: cstr_at_def)
  qed
qed

lemma cstr_at_append_prefix: "cstr_at (r @ NUL # rest) 0 = takeWhile (\<lambda>c. c \<noteq> NUL) r"
  by (induction r) (auto simp: cstr_at_def)

lemma cstr_hd: "cstr c \<noteq> [] \<Longrightarrow> c ! 0 = hd (cstr c)"
  by (cases c) (simp_all add: cstr_at_def split: if_splits)

lemma cstr_decomp:
  "length (cstr buf) < length buf \<Longrightarrow> buf = cstr buf @ NUL # drop (Suc (length (cstr buf))) buf"
proof -
  assume lt: "length (cstr buf) < length buf"
  have tw: "cstr buf = takeWhile (\<lambda>c. c \<noteq> NUL) buf" by (simp add: cstr_at_def)
  have "buf ! length (cstr buf) = NUL"
    using nth_length_takeWhile [of "\<lambda>c. c \<noteq> NUL" buf] lt tw by simp
  then have "drop (length (cstr buf)) buf = NUL # drop (Suc (length (cstr buf))) buf"
    using Cons_nth_drop_Suc [OF lt] by simp
  moreover have "take (length (cstr buf)) buf = cstr buf"
    unfolding tw by (rule takeWhile_eq_take [symmetric])
  ultimately show ?thesis by (metis append_take_drop_id)
qed

lemma cstr_at_mid: "p = length pre \<Longrightarrow> NUL \<notin> set w \<Longrightarrow> cstr_at (pre @ w @ NUL # r) p = w"
  using cstr_at_drop [of "pre @ w @ NUL # r" "length pre" 0] cstr_at_append_nul [of w r] by simp

lemma memset_ptrs_partial:
  "m < length a \<Longrightarrow> 0 < r \<Longrightarrow> r < PTR_SIZE \<Longrightarrow>
   memset_ptrs (m * PTR_SIZE + r) a =
     replicate m Null @ (case a ! m of Null \<Rightarrow> Null | _ \<Rightarrow> Garbage) # drop (Suc m) a"
proof (induction m arbitrary: a)
  case 0
  then show ?case by (cases a) (auto split: ptr.split)
next
  case (Suc m)
  then obtain x xs where a: "a = x # xs" by (cases a) auto
  have "memset_ptrs (Suc m * PTR_SIZE + r) a = Null # memset_ptrs (m * PTR_SIZE + r) xs"
    using a by (simp add: add.assoc)
  with Suc a show ?case by simp
qed

lemma map_fst_list_all: "list_all (\<lambda>(p, w). f p = w) xs \<Longrightarrow> map f (map fst xs) = map snd xs"
  by (induction xs) auto

lemma nat_digits_nonempty: "nat_digits n \<noteq> []"
  by (subst nat_digits.simps) simp

declare nat_digits.simps [simp del]

end
