(* ===== verification/History.thy ===== *)
theory History
  imports Shell_Prelude
begin

text \<open>
  The history ring of DougsShell: \<open>char *history[HISTORY_CAPACITY]\<close> and
  \<open>int history_size\<close> of \<open>main\<close>, with \<open>AddToHistory\<close> (lines 216--249) and
  \<open>PrintHistory\<close> (lines 253--260). Each slot is a pointer to a malloc'd block; the
  model keeps the size the code passed to \<open>malloc\<close> next to the string \<open>strcpy\<close>
  wrote, so that the allocation arithmetic of the source can be checked. The abstract
  ring is a list of strings, oldest first; \<open>hist_list\<close> reads it off the array.
  The shift loop is also shown equal to \<open>evict_ref\<close>, the eviction stated on the
  whole array.
\<close>

section \<open>Data\<close>

text \<open>A block returned by \<open>malloc(k)\<close> holding a C string. \<open>alloc_size\<close> is \<open>None\<close>
  when \<open>k\<close> was computed from indeterminate bytes.\<close>

datatype block = Block (alloc_size: "nat option") (contents: string)

type_synonym hist_array = "block ptr list"

definition block_fits :: "block \<Rightarrow> bool" where
  "block_fits b = (case alloc_size b of Some k \<Rightarrow> Suc (length (contents b)) \<le> k | None \<Rightarrow> False)"

text \<open>\<open>malloc(strlen(s + 1))\<close>, the size expression of lines 230 and 241 applied to a
  string \<open>s\<close>: the length of \<open>s\<close> without its first character. For the empty string,
  \<open>s + 1\<close> points past the terminator into bytes \<open>strcpy\<close> never wrote.\<close>

definition strlen_plus1 :: "string \<Rightarrow> nat option" where
  "strlen_plus1 s = (if s = [] then None else Some (length s - 1))"

text \<open>The history array after \<open>memset(history, '\0', HISTORY_CAPACITY - 1)\<close> (line 48)
  on the uninitialised local array.\<close>

definition history_init :: hist_array where
  "history_init = memset_ptrs (HISTORY_CAPACITY - 1) (replicate HISTORY_CAPACITY Garbage)"

section \<open>AddToHistory\<close>

text \<open>Lines 227--232: for \<open>i = 0 .. index_to_access - 2\<close>, free \<open>history[i]\<close>, allocate
  \<open>strlen(history[i+1] + 1)\<close> bytes and copy \<open>history[i+1]\<close> into them. Freeing or
  reading a slot that holds no valid pointer is undefined.\<close>

definition realloc_copy :: "block \<Rightarrow> block" where
  "realloc_copy b = Block (strlen_plus1 (contents b)) (contents b)"

function shift_history :: "nat \<Rightarrow> nat \<Rightarrow> hist_array \<Rightarrow> ub + hist_array" where
  "shift_history i n h =
     (if i + 2 \<le> n then
        (if Suc i < length h then
           (case (h ! i, h ! Suc i) of
              (Garbage, _) \<Rightarrow> Inl (HistorySlotUnset i)
            | (_, Ptr b) \<Rightarrow>
                shift_history (Suc i) n (h[i := Ptr (realloc_copy b)])
            | (_, _) \<Rightarrow> Inl (HistorySlotUnset (Suc i)))
         else Inl (HistoryIndexOutOfRange (int (Suc i))))
      else Inr h)"
  by pat_completeness auto
termination
  by (relation "measure (\<lambda>(i, n, h). n - i)") auto

declare shift_history.simps [simp del]

text \<open>\<open>AddToHistory(history, command, &history_size)\<close>. With the history full
  (\<open>index_to_access == HISTORY_CAPACITY\<close>) the entries are shifted and the last slot is
  freed and refilled with a correctly sized copy (lines 234--236); otherwise the copy goes
  to slot \<open>index_to_access\<close> with the size expression of line 241 and the size grows by
  one. Returns the new array and the new \<open>history_size\<close>.\<close>

definition AddToHistory :: "hist_array \<Rightarrow> string \<Rightarrow> nat \<Rightarrow> ub + (hist_array \<times> nat)" where
  "AddToHistory h command list_size =
     (let index_to_access = list_size; commandCopy = command in
      if index_to_access = HISTORY_CAPACITY then
        (case shift_history 0 index_to_access h of
           Inl e \<Rightarrow> Inl e
         | Inr h' \<Rightarrow>
             (if index_to_access - 1 < length h' \<and> h' ! (index_to_access - 1) \<noteq> Garbage then
                Inr (h'[index_to_access - 1 :=
                       Ptr (Block (Some (Suc (length commandCopy))) commandCopy)], index_to_access)
              else Inl (HistorySlotUnset (index_to_access - 1))))
      else if index_to_access < length h then
        Inr (h[index_to_access := Ptr (Block (strlen_plus1 commandCopy) commandCopy)],
             Suc index_to_access)
      else Inl (HistoryIndexOutOfRange (int index_to_access)))"

section \<open>PrintHistory\<close>

text \<open>Lines 255--259: \<open>printf("%d. %s\n", i+1, history[i])\<close> for \<open>i < list_size\<close>.\<close>

fun print_entries :: "nat \<Rightarrow> hist_array \<Rightarrow> ub + event list" where
  "print_entries i [] = Inr []"
| "print_entries i (x # xs) =
     (case x of
        Ptr b \<Rightarrow> (case print_entries (Suc i) xs of
                    Inl e \<Rightarrow> Inl e
                  | Inr evs \<Rightarrow>
                      Inr (Out (dec_string (int (Suc i)) @ ''. '' @ contents b @ [NL]) # evs))
      | _ \<Rightarrow> Inl (HistorySlotUnset i))"

definition PrintHistory :: "hist_array \<Rightarrow> nat \<Rightarrow> ub + event list" where
  "PrintHistory h list_size =
     (if list_size \<le> length h then print_entries 0 (take list_size h)
      else Inl (HistoryIndexOutOfRange (int (length h))))"

section \<open>The abstract ring\<close>

text \<open>The well-formedness of the array part of the state: ten slots, a size of at most
  ten, and a valid block in every slot below the size.\<close>

definition hist_wf :: "hist_array \<Rightarrow> nat \<Rightarrow> bool" where
  "hist_wf h n \<longleftrightarrow> length h = HISTORY_CAPACITY \<and> n \<le> HISTORY_CAPACITY \<and> list_all is_ptr (take n h)"

definition slot_contents :: "block ptr \<Rightarrow> string" where
  "slot_contents x = (case x of Ptr b \<Rightarrow> contents b | _ \<Rightarrow> [])"

text \<open>The recorded command lines, oldest first (the order \<open>PrintHistory\<close> shows).\<close>

definition hist_list :: "hist_array \<Rightarrow> nat \<Rightarrow> string list" where
  "hist_list h n = map slot_contents (take n h)"

text \<open>The contract of the spec's \<open>record\<close> (section 4.2): append the line and keep the
  newest \<open>HISTORY_CAPACITY\<close> entries.\<close>

definition ring_record :: "string list \<Rightarrow> string \<Rightarrow> string list" where
  "ring_record xs c = drop (Suc (length xs) - HISTORY_CAPACITY) (xs @ [c])"

text \<open>The invariant the shell keeps on its history: well-formed, no valid pointer at
  or above the size (those slots were never written), and every recorded line a C
  string that fits the 100-byte command buffer.\<close>

definition line_ok :: "string \<Rightarrow> bool" where
  "line_ok s \<longleftrightarrow> NUL \<notin> set s \<and> length s < COMMAND_SIZE"

definition hist_inv :: "hist_array \<Rightarrow> nat \<Rightarrow> bool" where
  "hist_inv h n \<longleftrightarrow> hist_wf h n \<and> list_all (\<lambda>x. \<not> is_ptr x) (drop n h)
                  \<and> list_all line_ok (hist_list h n)"

text \<open>The spec's \<open>list()\<close>: ordinal and line, oldest first, ordinals counted from
  the given start (1 for the whole ring).\<close>

primrec ring_listing :: "nat \<Rightarrow> string list \<Rightarrow> event list" where
  "ring_listing k [] = []"
| "ring_listing k (s # ss) = Out (dec_string (int k) @ ''. '' @ s @ [NL]) # ring_listing (Suc k) ss"


text \<open>The eviction the shift loop performs, stated on the whole array as the spec
  describes it (section 4.2): every slot takes the copy of its successor's line and the
  last slot keeps its pointer, provided that every slot holds a valid pointer;
  otherwise the first slot that does not is the one read or freed in error.\<close>

definition evict_ref :: "hist_array \<Rightarrow> ub + hist_array" where
  "evict_ref h =
     (if h ! 0 = Garbage then Inl (HistorySlotUnset 0)
      else (case find (\<lambda>j. \<not> is_ptr (h ! j)) [1..<length h] of
              Some j \<Rightarrow> Inl (HistorySlotUnset j)
            | None \<Rightarrow> Inr (map (map_ptr realloc_copy) (tl h) @ [last h])))"

section \<open>Lemmas\<close>

lemma shift_history_closed:
  assumes "n \<le> length h" "i < n" "\<forall>j. i \<le> j \<and> j < n \<longrightarrow> is_ptr (h ! j)"
  shows "shift_history i n h =
           Inr (take i h @ map (map_ptr realloc_copy) (take (n - 1 - i) (drop (Suc i) h)) @ drop (n - 1) h)"
  using assms
proof (induction i n h rule: shift_history.induct)
  case (1 i n h)
  show ?case
  proof (cases "i + 2 \<le> n")
    case False
    with "1.prems" have "n - 1 = i" by simp
    with False show ?thesis by (simp add: shift_history.simps [of i n h])
  next
    case True
    from "1.prems" True have "is_ptr (h ! Suc i)" by simp
    then obtain b where b: "h ! Suc i = Ptr b"
      by (cases "h ! Suc i") auto
    from "1.prems" True have "is_ptr (h ! i)" by simp
    then have hg: "h ! i \<noteq> Garbage" by auto
    from True "1.prems" have len: "Suc i < length h" by simp
    let ?h1 = "h[i := Ptr (realloc_copy b)]"
    have step: "shift_history i n h = shift_history (Suc i) n ?h1"
      using True len b hg by (cases "h ! i") (simp_all add: shift_history.simps [of i n h])
    have IH: "shift_history (Suc i) n ?h1 =
       Inr (take (Suc i) ?h1 @ map (map_ptr realloc_copy) (take (n - 1 - Suc i) (drop (Suc (Suc i)) ?h1)) @ drop (n - 1) ?h1)"
      using "1.IH"[OF True len] "1.prems" True b hg
      by (cases "h ! i") (auto simp: nth_list_update)
    have t: "take (Suc i) ?h1 = take i h @ [Ptr (realloc_copy b)]"
      using len by (simp add: take_Suc_conv_app_nth)
    have d2: "drop (Suc (Suc i)) ?h1 = drop (Suc (Suc i)) h" by simp
    have d3: "drop (n - 1) ?h1 = drop (n - 1) h" using True by simp
    have "drop (Suc i) h = h ! Suc i # drop (Suc (Suc i)) h"
      using len by (simp add: Cons_nth_drop_Suc)
    then have tk: "take (n - 1 - i) (drop (Suc i) h) = h ! Suc i # take (n - 1 - Suc i) (drop (Suc (Suc i)) h)"
      using True by (simp add: take_Cons')
    show ?thesis using step IH t d2 d3 tk b by simp
  qed
qed

lemma slot_contents_realloc [simp]: "slot_contents (map_ptr realloc_copy x) = slot_contents x"
  by (cases x) (simp_all add: slot_contents_def realloc_copy_def)

lemma slot_contents_Ptr [simp]: "slot_contents (Ptr b) = contents b"
  by (simp add: slot_contents_def)

lemma is_ptr_map_ptr [simp]: "is_ptr (map_ptr f x) = is_ptr x"
  by (cases x) simp_all

lemma hist_wf_full_all: "hist_wf h HISTORY_CAPACITY \<Longrightarrow> list_all is_ptr h"
  unfolding hist_wf_def by (metis order_refl take_all)

lemma AddToHistory_not_full:
  assumes "length h = HISTORY_CAPACITY" "n < HISTORY_CAPACITY"
  shows "AddToHistory h c n = Inr (h[n := Ptr (Block (strlen_plus1 c) c)], Suc n)"
  using assms by (simp add: AddToHistory_def)

lemma AddToHistory_full:
  assumes "hist_wf h HISTORY_CAPACITY"
  shows "AddToHistory h c HISTORY_CAPACITY =
           Inr (map (map_ptr realloc_copy) (tl h) @ [Ptr (Block (Some (Suc (length c))) c)],
                HISTORY_CAPACITY)"
proof -
  have len: "length h = HISTORY_CAPACITY" and all: "list_all is_ptr h"
    using assms hist_wf_full_all by (simp_all add: hist_wf_def)
  have ptrs: "\<forall>j. 0 \<le> j \<and> j < HISTORY_CAPACITY \<longrightarrow> is_ptr (h ! j)"
    using all len by (simp add: list_all_length)
  have sh: "shift_history 0 HISTORY_CAPACITY h =
              Inr (map (map_ptr realloc_copy) (tl h) @ drop (HISTORY_CAPACITY - 1) h)"
    using shift_history_closed [of HISTORY_CAPACITY h 0] len ptrs
    by (simp add: shell_consts drop_Suc)
  have last: "drop (HISTORY_CAPACITY - 1) h = [h ! (HISTORY_CAPACITY - 1)]"
    using len Cons_nth_drop_Suc [of "HISTORY_CAPACITY - 1" h] by (simp add: shell_consts)
  have lp: "is_ptr (h ! (HISTORY_CAPACITY - 1))"
    using ptrs by (simp add: shell_consts)
  then have ng: "h ! (HISTORY_CAPACITY - 1) \<noteq> Garbage" by auto
  have lt: "length (tl h) = HISTORY_CAPACITY - 1" using len by simp
  show ?thesis
    using sh last ng lt len by (simp add: AddToHistory_def nth_append list_update_append)
qed

lemma hist_list_snoc:
  "n < length h \<Longrightarrow> hist_list (h[n := Ptr b]) (Suc n) = hist_list h n @ [contents b]"
  by (simp add: hist_list_def take_Suc_conv_app_nth slot_contents_def)

lemma AddToHistory_step:
  assumes "hist_wf h n"
  shows "\<exists>h' n'. AddToHistory h c n = Inr (h', n') \<and> hist_wf h' n'
                 \<and> hist_list h' n' = ring_record (hist_list h n) c"
proof (cases "n = HISTORY_CAPACITY")
  case True
  let ?h' = "map (map_ptr realloc_copy) (tl h) @ [Ptr (Block (Some (Suc (length c))) c)]"
  have len: "length h = HISTORY_CAPACITY" and all: "list_all is_ptr h"
    using assms True hist_wf_full_all by (simp_all add: hist_wf_def)
  have wf: "hist_wf ?h' HISTORY_CAPACITY"
    using len all by (cases h) (simp_all add: hist_wf_def list_all_iff shell_consts)
  have "hist_list ?h' HISTORY_CAPACITY = tl (hist_list h HISTORY_CAPACITY) @ [c]"
    using len by (simp add: hist_list_def map_tl comp_def shell_consts)
  moreover have "ring_record (hist_list h HISTORY_CAPACITY) c = tl (hist_list h HISTORY_CAPACITY) @ [c]"
    using len by (cases h) (simp_all add: ring_record_def hist_list_def shell_consts)
  ultimately show ?thesis
    using AddToHistory_full [OF assms [unfolded True]] wf True by simp
next
  case False
  with assms have len: "length h = HISTORY_CAPACITY" and lt: "n < HISTORY_CAPACITY"
    by (simp_all add: hist_wf_def)
  have wf: "hist_wf (h[n := Ptr (Block (strlen_plus1 c) c)]) (Suc n)"
    using assms lt len by (simp add: hist_wf_def take_Suc_conv_app_nth)
  have "length (hist_list h n) = n" using len lt by (simp add: hist_list_def)
  then have "ring_record (hist_list h n) c = hist_list h n @ [c]"
    using lt by (simp add: ring_record_def)
  then show ?thesis
    using AddToHistory_not_full [OF len lt] wf hist_list_snoc [of n h] len lt by simp
qed

lemma print_entries_all_ptr:
  "list_all is_ptr xs \<Longrightarrow> print_entries i xs = Inr (ring_listing (Suc i) (map slot_contents xs))"
proof (induction xs arbitrary: i)
  case Nil
  then show ?case by simp
next
  case (Cons x xs)
  then obtain b where "x = Ptr b" by (cases x) auto
  with Cons show ?case by simp
qed

lemma PrintHistory_ring_listing:
  assumes "hist_wf h n"
  shows "PrintHistory h n = Inr (ring_listing 1 (hist_list h n))"
proof -
  have "n \<le> length h" and "list_all is_ptr (take n h)"
    using assms by (simp_all add: hist_wf_def)
  then show ?thesis
    by (simp add: PrintHistory_def print_entries_all_ptr hist_list_def)
qed

lemma AddToHistory_new_block:
  assumes "hist_wf h n" "n < HISTORY_CAPACITY" "AddToHistory h c n = Inr (h', n')"
  shows "h' ! n = Ptr (Block (strlen_plus1 c) c) \<and> \<not> block_fits (Block (strlen_plus1 c) c)"
proof -
  have len: "length h = HISTORY_CAPACITY" using assms(1) by (simp add: hist_wf_def)
  then have "h' = h[n := Ptr (Block (strlen_plus1 c) c)]"
    using assms(2,3) AddToHistory_not_full by simp
  then show ?thesis
    using len assms(2) by (auto simp: block_fits_def strlen_plus1_def)
qed

lemma history_init_wf: "hist_wf history_init 0"
  by (simp add: hist_wf_def history_init_def)

lemma hist_list_init: "hist_list history_init 0 = []"
  by (simp add: hist_list_def)

lemma history_init_inv: "hist_inv history_init 0"
proof -
  have "list_all (\<lambda>x. \<not> is_ptr x) history_init"
    by (simp add: history_init_def shell_consts numeral_eq_Suc)
  then show ?thesis
    using history_init_wf hist_list_init by (simp add: hist_inv_def)
qed

lemma AddToHistory_inv:
  assumes "hist_inv h n" "line_ok c"
  shows "\<exists>h' n'. AddToHistory h c n = Inr (h', n') \<and> hist_inv h' n'
                 \<and> hist_list h' n' = ring_record (hist_list h n) c"
proof -
  from assms(1) have wf: "hist_wf h n" by (simp add: hist_inv_def)
  obtain h' n' where add: "AddToHistory h c n = Inr (h', n')" and wf': "hist_wf h' n'"
    and hl: "hist_list h' n' = ring_record (hist_list h n) c"
    using AddToHistory_step [OF wf, of c] by blast
  have lines: "list_all line_ok (hist_list h' n')"
    using assms by (auto simp: hl ring_record_def hist_inv_def list_all_iff dest: in_set_dropD)
  have "list_all (\<lambda>x. \<not> is_ptr x) (drop n' h')"
  proof (cases "n = HISTORY_CAPACITY")
    case True
    with wf add AddToHistory_full have "h' = map (map_ptr realloc_copy) (tl h) @
        [Ptr (Block (Some (Suc (length c))) c)]" and "n' = HISTORY_CAPACITY" by simp_all
    with wf True show ?thesis by (simp add: hist_wf_def shell_consts)
  next
    case False
    with wf have len: "length h = HISTORY_CAPACITY" and lt: "n < HISTORY_CAPACITY"
      by (simp_all add: hist_wf_def)
    with add AddToHistory_not_full have "h' = h[n := Ptr (Block (strlen_plus1 c) c)]"
      and "n' = Suc n" by simp_all
    with assms(1) len lt show ?thesis
      by (simp add: hist_inv_def Cons_nth_drop_Suc [symmetric])
  qed
  with wf' lines add hl show ?thesis by (simp add: hist_inv_def)
qed

lemma length_hist_list: "hist_wf h n \<Longrightarrow> length (hist_list h n) = n"
  by (simp add: hist_wf_def hist_list_def)

lemma ring_record_last: "ring_record xs c \<noteq> [] \<and> last (ring_record xs c) = c"
proof -
  have "Suc (length xs) - HISTORY_CAPACITY \<le> length xs" by (simp add: shell_consts)
  then show ?thesis by (simp add: ring_record_def)
qed

lemma shift_history_from:
  "n = length h \<Longrightarrow> Suc i \<le> length h \<Longrightarrow> h ! i \<noteq> Garbage \<Longrightarrow>
   shift_history i n h =
     (case find (\<lambda>j. \<not> is_ptr (h ! j)) [Suc i..<length h] of
        Some j \<Rightarrow> Inl (HistorySlotUnset j)
      | None \<Rightarrow> Inr (take i h @ map (map_ptr realloc_copy) (drop (Suc i) h) @ [last h]))"
proof (induction i n h rule: shift_history.induct)
  case (1 i n h)
  note n = "1.prems"(1)
  show ?case
  proof (cases "i + 2 \<le> length h")
    case False
    then have i: "Suc i = length h" using "1.prems"(2) by simp
    then have "take i h @ [last h] = h"
      by (metis append_butlast_last_id butlast_conv_take diff_Suc_1 length_greater_0_conv zero_less_Suc)
    then show ?thesis using False i n by (subst shift_history.simps) simp
  next
    case True
    then have lt: "Suc i < length h" by simp
    have up: "[Suc i..<length h] = Suc i # [Suc (Suc i)..<length h]" using lt by (simp add: upt_conv_Cons)
    show ?thesis
    proof (cases "h ! Suc i")
      case (Ptr b)
      let ?h = "h[i := Ptr (realloc_copy b)]"
      have step: "shift_history i n h = shift_history (Suc i) n ?h"
        using True lt Ptr "1.prems"(3) n by (cases "h ! i") (simp_all add: shift_history.simps [of i "length h" h])
      have IH: "shift_history (Suc i) n ?h =
          (case find (\<lambda>j. \<not> is_ptr (?h ! j)) [Suc (Suc i)..<length h] of
             Some j \<Rightarrow> Inl (HistorySlotUnset j)
           | None \<Rightarrow> Inr (take (Suc i) ?h @ map (map_ptr realloc_copy) (drop (Suc (Suc i)) ?h) @ [last ?h]))"
        using "1.IH" [OF True [folded n] lt refl] n "1.prems" Ptr lt by (cases "h ! i") auto
      have f: "find (\<lambda>j. \<not> is_ptr (?h ! j)) [Suc (Suc i)..<length h] = find (\<lambda>j. \<not> is_ptr (h ! j)) [Suc (Suc i)..<length h]"
        by (rule find_cong) auto
      have t: "take (Suc i) ?h = take i h @ [Ptr (realloc_copy b)]" using lt by (simp add: take_Suc_conv_app_nth)
      have d: "drop (Suc i) h = Ptr b # drop (Suc (Suc i)) h" using lt Ptr by (metis Cons_nth_drop_Suc)
      have l: "last ?h = last h" using lt last_list_update [of h i] by (cases h) auto
      show ?thesis using step IH f t d l up Ptr by (simp split: option.split)
    next
      case Null
      then show ?thesis using True lt up "1.prems"(3) n
        by (cases "h ! i") (simp_all add: shift_history.simps [of i "length h" h])
    next
      case Garbage
      then show ?thesis using True lt up "1.prems"(3) n
        by (cases "h ! i") (simp_all add: shift_history.simps [of i "length h" h])
    qed
  qed
qed

lemma realloc_copy_not_fits: "\<not> block_fits (realloc_copy b)"
  by (auto simp: block_fits_def realloc_copy_def strlen_plus1_def)

section \<open>Properties of the history operations\<close>

lemma ring_listing_last:
  "xs \<noteq> [] \<Longrightarrow> last (ring_listing k xs) = Out (dec_string (int (k + length xs - 1)) @ ''. '' @ last xs @ [NL])"
proof (induction xs arbitrary: k)
  case Nil
  then show ?case by simp
next
  case (Cons x xs)
  show ?case
  proof (cases "xs = []")
    case True
    then show ?thesis by simp
  next
    case False
    have "ring_listing (Suc k) xs \<noteq> []" using False by (cases xs) simp_all
    then show ?thesis using Cons.IH [OF False, of "Suc k"] False by simp
  qed
qed

text \<open>C1: AddToHistory refines the bounded FIFO of the spec: on a well-formed history it
  never fails, and the recorded lines afterwards are those of \<open>ring_record\<close>: the new
  line appended and, when ten lines were recorded, the oldest one dropped.\<close>

theorem AddToHistory_refines_ring:
  assumes "hist_wf h n"
  shows "map_sum id (\<lambda>(h', n'). hist_list h' n') (AddToHistory h c n)
           = Inr (ring_record (hist_list h n) c)"
  using AddToHistory_step [OF assms, of c] by auto

text \<open>C5: PrintHistory on a well-formed history prints exactly the spec's listing: one
  line \<open>"k. line"\<close> per recorded line, ordinals from 1, oldest first.\<close>

theorem PrintHistory_listing:
  assumes "hist_wf h n"
  shows "PrintHistory h n = Inr (ring_listing 1 (hist_list h n))"
  using PrintHistory_ring_listing [OF assms] .

text \<open>C28: every line AddToHistory stores while the history is not full is stored in a
  block smaller than the line and its terminator: \<open>malloc(strlen(commandCopy + 1))\<close>
  (line 241) asks for \<open>strlen - 1\<close> bytes, and for the empty line for an indeterminate
  size.\<close>

theorem AddToHistory_overflows:
  assumes "hist_wf h n" "n < HISTORY_CAPACITY" "AddToHistory h c n = Inr (h', n')"
  shows "\<exists>b. h' ! n = Ptr b \<and> contents b = c \<and> \<not> block_fits b"
  using AddToHistory_new_block [OF assms] by simp

text \<open>C29: once the history is full, every line the shift loop moves is copied into a
  block that is too small as well: line 230 allocates \<open>strlen(history[i+1] + 1)\<close>
  bytes, one less than the line's length, for a copy of the whole line and its
  terminator. Only the newest slot, allocated at line 235 with \<open>strlen + 1\<close>, fits.\<close>

theorem AddToHistory_shift_overflows:
  assumes "hist_wf h HISTORY_CAPACITY" "AddToHistory h c HISTORY_CAPACITY = Inr (h', n')"
  shows "(\<forall>i < HISTORY_CAPACITY - 1. \<exists>b. h' ! i = Ptr b
            \<and> contents b = hist_list h HISTORY_CAPACITY ! Suc i \<and> \<not> block_fits b)
         \<and> h' ! (HISTORY_CAPACITY - 1) = Ptr (Block (Some (Suc (length c))) c)
         \<and> block_fits (Block (Some (Suc (length c))) c)"
proof -
  have h': "h' = map (map_ptr realloc_copy) (tl h) @ [Ptr (Block (Some (Suc (length c))) c)]"
    using AddToHistory_full [OF assms(1), of c] assms(2) by simp
  have len: "length h = HISTORY_CAPACITY" and all: "list_all is_ptr h"
    using assms(1) hist_wf_full_all by (simp_all add: hist_wf_def)
  have shifted: "\<forall>i < HISTORY_CAPACITY - 1. \<exists>b. h' ! i = Ptr b
            \<and> contents b = hist_list h HISTORY_CAPACITY ! Suc i \<and> \<not> block_fits b"
  proof (intro allI impI)
    fix i assume i: "i < HISTORY_CAPACITY - 1"
    then have "is_ptr (h ! Suc i)" using all len by (simp add: list_all_length)
    then obtain b where b: "h ! Suc i = Ptr b" by (cases "h ! Suc i") auto
    have "h' ! i = Ptr (realloc_copy b)" using h' i len b by (simp add: nth_append nth_tl)
    moreover have "hist_list h HISTORY_CAPACITY ! Suc i = contents b"
      using b i len by (simp add: hist_list_def)
    ultimately show "\<exists>b. h' ! i = Ptr b
            \<and> contents b = hist_list h HISTORY_CAPACITY ! Suc i \<and> \<not> block_fits b"
      using realloc_copy_not_fits [of b] by (auto simp: realloc_copy_def)
  qed
  have "h' ! (HISTORY_CAPACITY - 1) = Ptr (Block (Some (Suc (length c))) c)"
    using h' len by (simp add: nth_append)
  then show ?thesis using shifted by (simp add: block_fits_def)
qed

text \<open>Witnesses: the hypotheses hold on the history right after start-up and after a
  first command.\<close>

theorem AddToHistory_refines_ring_witness:
  "hist_wf history_init 0 \<and>
   map_sum id (\<lambda>(h', n'). hist_list h' n') (AddToHistory history_init ''ls'' 0) = Inr [''ls'']"
  using AddToHistory_refines_ring [of history_init 0 "''ls''"] history_init_wf
  by (simp add: ring_record_def hist_list_init shell_consts)

theorem PrintHistory_listing_witness:
  "hist_wf [Ptr (Block (Some 1) ''ls''), Garbage, Garbage, Garbage, Garbage, Garbage, Garbage,
            Garbage, Garbage, Garbage] 1 \<and>
   PrintHistory [Ptr (Block (Some 1) ''ls''), Garbage, Garbage, Garbage, Garbage, Garbage, Garbage,
            Garbage, Garbage, Garbage] 1 = Inr [Out (''1. ls'' @ [NL])]"
proof -
  have wf: "hist_wf [Ptr (Block (Some 1) ''ls''), Garbage, Garbage, Garbage, Garbage, Garbage, Garbage,
            Garbage, Garbage, Garbage] 1"
    by (simp add: hist_wf_def shell_consts)
  show ?thesis
    using PrintHistory_listing [OF wf] wf
    by (simp add: hist_list_def dec_string_def nat_digits.simps digit_char_def)
qed

theorem AddToHistory_overflows_witness:
  "hist_wf history_init 0 \<and> 0 < HISTORY_CAPACITY \<and>
   AddToHistory history_init ''ls'' 0 = Inr (history_init[0 := Ptr (Block (Some 1) ''ls'')], 1) \<and>
   (\<exists>b. history_init[0 := Ptr (Block (Some 1) ''ls'')] ! 0 = Ptr b \<and> contents b = ''ls''
        \<and> \<not> block_fits b)"
proof -
  have add: "AddToHistory history_init ''ls'' 0 = Inr (history_init[0 := Ptr (Block (Some 1) ''ls'')], 1)"
    by (simp add: AddToHistory_def history_init_def shell_consts strlen_plus1_def)
  have lt: "0 < HISTORY_CAPACITY" by (simp add: shell_consts)
  show ?thesis
    using AddToHistory_overflows [OF history_init_wf lt add] history_init_wf lt add by simp
qed

text \<open>C9: the shift loop of lines 227--232, run on a full history, is the whole-array
  eviction \<open>evict_ref\<close>: the index-by-index copy of each successor equals the map over
  the tail, and the loop fails exactly at the first slot without a valid pointer.\<close>

theorem shift_history_equiv:
  assumes "length h = HISTORY_CAPACITY"
  shows "shift_history 0 HISTORY_CAPACITY h = evict_ref h"
proof (cases "h ! 0 = Garbage")
  case True
  then show ?thesis using assms by (simp add: shift_history.simps evict_ref_def shell_consts)
next
  case False
  have d: "drop (Suc 0) h = tl h" by (cases h) simp_all
  show ?thesis using shift_history_from [of HISTORY_CAPACITY h 0] False assms
    by (simp add: evict_ref_def shell_consts d split: option.split)
qed

theorem shift_history_equiv_witness:
  "length (replicate 10 (Ptr (Block (Some 3) ''ls''))) = HISTORY_CAPACITY \<and>
   shift_history 0 HISTORY_CAPACITY (replicate 10 (Ptr (Block (Some 3) ''ls'')))
     = evict_ref (replicate 10 (Ptr (Block (Some 3) ''ls'')))"
  using shift_history_equiv [of "replicate 10 (Ptr (Block (Some 3) ''ls''))"]
  by (simp add: shell_consts)

theorem AddToHistory_shift_overflows_witness:
  "hist_wf (replicate 10 (Ptr (Block (Some 3) ''ls''))) HISTORY_CAPACITY \<and>
   AddToHistory (replicate 10 (Ptr (Block (Some 3) ''ls''))) ''pwd'' HISTORY_CAPACITY =
     Inr (replicate 9 (Ptr (Block (Some 1) ''ls'')) @ [Ptr (Block (Some 4) ''pwd'')], HISTORY_CAPACITY) \<and>
   (\<exists>b. (replicate 9 (Ptr (Block (Some 1) ''ls'')) @ [Ptr (Block (Some 4) ''pwd'')]) ! 0 = Ptr b
        \<and> contents b = ''ls'' \<and> \<not> block_fits b) \<and>
   (\<exists>b. (replicate 9 (Ptr (Block (Some 1) ''ls'')) @ [Ptr (Block (Some 4) ''pwd'')]) ! 8 = Ptr b
        \<and> contents b = ''ls'' \<and> \<not> block_fits b)"
proof -
  have wf: "hist_wf (replicate 10 (Ptr (Block (Some 3) ''ls''))) HISTORY_CAPACITY"
    by (simp add: hist_wf_def shell_consts list_all_iff)
  have a: "AddToHistory (replicate 10 (Ptr (Block (Some 3) ''ls''))) ''pwd'' HISTORY_CAPACITY =
     Inr (replicate 9 (Ptr (Block (Some 1) ''ls'')) @ [Ptr (Block (Some 4) ''pwd'')], HISTORY_CAPACITY)"
    using AddToHistory_full [OF wf, of "''pwd''"]
    by (simp add: shell_consts realloc_copy_def strlen_plus1_def numeral_eq_Suc)
  have hl: "\<forall>i < HISTORY_CAPACITY - 1. hist_list (replicate 10 (Ptr (Block (Some 3) ''ls''))) HISTORY_CAPACITY ! Suc i = ''ls''"
    by (simp add: hist_list_def shell_consts)
  have r: "\<forall>i < HISTORY_CAPACITY - 1. \<exists>b.
      (replicate 9 (Ptr (Block (Some 1) ''ls'')) @ [Ptr (Block (Some 4) ''pwd'')]) ! i = Ptr b
      \<and> contents b = ''ls'' \<and> \<not> block_fits b"
    using AddToHistory_shift_overflows [OF wf a] hl by auto
  have "0 < HISTORY_CAPACITY - 1" "8 < HISTORY_CAPACITY - 1" by (simp_all add: shell_consts)
  then show ?thesis using r wf a by blast
qed

end
