(* ===== verification/Recall.thy ===== *)
theory Recall
  imports History
begin

text \<open>
  History recall in DougsShell: the test of lines 62 and 102 that a command is a recall
  request (\<open>command[0] == '!' && strlen(command) == 2\<close>) and \<open>GetEcho\<close>
  (lines 265--285), which turns \<^verbatim>\<open>!!\<close> or \<^verbatim>\<open>!N\<close> into the recalled
  line by copying \<open>history[list_size - intValue]\<close> over the command buffer. The libc
  \<open>atoi\<close> the code calls is modelled from the C standard (leading white space, an
  optional sign, decimal digits; its undefined overflow cannot arise on the one-character
  strings GetEcho passes it). Recording a line and recalling it with \<^verbatim>\<open>!!\<close>
  is shown to give the line back.
\<close>

section \<open>atoi\<close>

definition is_space :: "char \<Rightarrow> bool" where
  "is_space c \<longleftrightarrow> c = SP \<or> c = CHR 0x09 \<or> c = NL \<or> c = CHR 0x0B \<or> c = CHR 0x0C \<or> c = CHR 0x0D"

definition is_digit :: "char \<Rightarrow> bool" where
  "is_digit c \<longleftrightarrow> (48::nat) \<le> of_char c \<and> of_char c \<le> (57::nat)"

definition digit_value :: "char \<Rightarrow> int" where
  "digit_value c = int (of_char c) - 48"

fun digits_value :: "int \<Rightarrow> string \<Rightarrow> int" where
  "digits_value acc [] = acc"
| "digits_value acc (c # cs) = (if is_digit c then digits_value (10 * acc + digit_value c) cs else acc)"

definition atoi :: "string \<Rightarrow> int" where
  "atoi s =
     (case dropWhile is_space s of
        [] \<Rightarrow> 0
      | c # r \<Rightarrow> (if c = CHR ''-'' then - digits_value 0 r
                 else if c = CHR ''+'' then digits_value 0 r
                 else digits_value 0 (c # r)))"

section \<open>GetEcho\<close>

text \<open>Lines 62 and 102: the command is taken for a recall request when its first
  character is \<open>!\<close> and its length is two.\<close>

definition is_recall :: "buffer \<Rightarrow> bool" where
  "is_recall command \<longleftrightarrow> command ! 0 = BANG \<and> length (cstr command) = 2"

text \<open>Lines 267--271: \<open>intValue = atoi(&command[1])\<close>, overridden by 1 for \<^verbatim>\<open>!!\<close>.\<close>

definition echo_value :: "buffer \<Rightarrow> int" where
  "echo_value command =
     (let intValue = atoi (cstr_at command 1) in
      if command ! 1 = BANG then 1 else intValue)"

text \<open>\<open>GetEcho(history, command, list_size)\<close>: a number above the size prints an
  error (without a newline) and leaves the command as it is; otherwise
  \<open>history[list_size - intValue]\<close> is copied over the command, printed with a newline,
  and the shell sleeps a second. Reading a slot that holds no valid pointer, or one
  outside the array, is undefined.\<close>

definition GetEcho :: "hist_array \<Rightarrow> buffer \<Rightarrow> nat \<Rightarrow> ub + (buffer \<times> event list)" where
  "GetEcho history command list_size =
     (let intValue = echo_value command in
      if intValue > int list_size then
        Inr (command, [Out (''error: there have not been '' @ dec_string intValue @
                            '' command(s) entered'')])
      else
        (let k = int list_size - intValue in
         if k < 0 \<or> int (length history) \<le> k then Inl (HistoryIndexOutOfRange k)
         else
           (case history ! nat k of
              Ptr b \<Rightarrow>
                (if length (contents b) < length command then
                   (let command' = strcpy_buf command (contents b) in
                    Inr (command', [Out (cstr command' @ [NL]), Sleep 1]))
                 else Inl CommandOverflow)
            | _ \<Rightarrow> Inl (HistorySlotUnset (nat k)))))"

section \<open>Lemmas\<close>

lemma cstr_at_Suc_tl:
  "buf \<noteq> [] \<Longrightarrow> buf ! 0 \<noteq> NUL \<Longrightarrow> cstr_at buf (Suc 0) = tl (cstr buf)"
  by (cases buf) (simp_all add: cstr_at_def)

lemma cstr_two:
  assumes "length (cstr buf) = 2"
  shows "cstr_at buf (Suc 0) = [buf ! 1] \<and> buf ! 0 \<noteq> NUL"
proof -
  have ne: "buf \<noteq> []" using assms by (auto simp: cstr_at_def)
  have nz: "buf ! 0 \<noteq> NUL"
    using assms ne by (cases buf) (auto simp: cstr_at_def)
  have "cstr buf ! 1 = buf ! 1"
    using assms by (simp add: cstr_at_def takeWhile_nth)
  then have "tl (cstr buf) = [buf ! 1]"
    using assms by (cases "cstr buf" rule: list.exhaust) (auto simp: length_Suc_conv)
  with ne nz show ?thesis by (simp add: cstr_at_Suc_tl)
qed

lemma atoi_single: "atoi [c] = (if is_digit c then digit_value c else 0)"
  by (auto simp: atoi_def is_space_def is_digit_def)

lemma echo_value_recall_aux:
  assumes "is_recall command"
  shows "echo_value command =
           (if command ! 1 = BANG then 1
            else if is_digit (command ! 1) then digit_value (command ! 1) else 0)"
  using assms cstr_two [of command] by (simp add: is_recall_def echo_value_def atoi_single)

lemma hist_inv_slot:
  assumes "hist_inv h n" "k < n"
  shows "\<exists>b. h ! k = Ptr b \<and> contents b = hist_list h n ! k \<and> line_ok (contents b)"
proof -
  have wf: "hist_wf h n" and lines: "list_all line_ok (hist_list h n)"
    using assms(1) by (simp_all add: hist_inv_def)
  then have len: "n \<le> length h" by (simp add: hist_wf_def)
  have "is_ptr (h ! k)" using wf assms(2) by (simp add: hist_wf_def list_all_length)
  then obtain b where b: "h ! k = Ptr b" by (cases "h ! k") auto
  have hk: "hist_list h n ! k = contents b"
    using b assms(2) len by (simp add: hist_list_def)
  have "line_ok (hist_list h n ! k)"
    using lines assms(2) len by (simp add: list_all_length hist_list_def)
  with b hk show ?thesis by simp
qed

lemma hist_inv_unset:
  assumes "hist_inv h n" "n \<le> k" "k < length h"
  shows "\<not> is_ptr (h ! k)"
proof -
  have "list_all (\<lambda>x. \<not> is_ptr x) (drop n h)" using assms(1) by (simp add: hist_inv_def)
  then have "\<not> is_ptr (drop n h ! (k - n))"
    using assms(2,3) by (simp add: list_all_length del: nth_drop)
  then show ?thesis using assms(2,3) by simp
qed

lemma GetEcho_resolves_aux:
  assumes "hist_inv h n" "length command = COMMAND_SIZE"
    and "1 \<le> echo_value command" "echo_value command \<le> int n"
  shows "GetEcho h command n =
           Inr (strcpy_buf command (hist_list h n ! (n - nat (echo_value command))),
                [Out (hist_list h n ! (n - nat (echo_value command)) @ [NL]), Sleep 1])"
proof -
  obtain N where N: "echo_value command = N" by simp
  define k where "k = n - nat N"
  have k: "k < n" and kint: "int n - N = int k" using assms(3,4) by (simp_all add: N k_def)
  obtain b where b: "h ! k = Ptr b" and cb: "contents b = hist_list h n ! k"
    and ok: "line_ok (contents b)"
    using hist_inv_slot [OF assms(1) k] by blast
  have len: "length h = HISTORY_CAPACITY" "n \<le> HISTORY_CAPACITY"
    using assms(1) by (simp_all add: hist_inv_def hist_wf_def)
  have fits: "length (contents b) < length command" and nonul: "NUL \<notin> set (contents b)"
    using ok assms(2) by (simp_all add: line_ok_def)
  have notgt: "\<not> int n < N" using assms(4) N by simp
  have range: "\<not> (int n - N < 0 \<or> int (length h) \<le> int n - N)" using k len kint by simp
  have "GetEcho h command n =
          (case h ! nat (int n - N) of
              Ptr b \<Rightarrow>
                (if length (contents b) < length command then
                   (let command' = strcpy_buf command (contents b) in
                    Inr (command', [Out (cstr command' @ [NL]), Sleep 1]))
                 else Inl CommandOverflow)
            | _ \<Rightarrow> Inl (HistorySlotUnset (nat (int n - N))))"
    using notgt range by (simp only: GetEcho_def Let_def N if_False)
  also have "\<dots> = Inr (strcpy_buf command (contents b), [Out (contents b @ [NL]), Sleep 1])"
    using b fits nonul kint by simp
  finally show ?thesis using cb N k_def by simp
qed

lemma GetEcho_out_of_range_aux:
  assumes "int n < echo_value command"
  shows "GetEcho h command n =
           Inr (command, [Out (''error: there have not been '' @ dec_string (echo_value command) @
                               '' command(s) entered'')])"
  using assms by (simp add: GetEcho_def)

lemma GetEcho_zero_aux:
  assumes "hist_inv h n" "echo_value command = 0"
  shows "\<exists>e. GetEcho h command n = Inl e"
proof (cases "n < length h")
  case True
  then have "\<not> is_ptr (h ! n)" using hist_inv_unset [OF assms(1)] by simp
  then show ?thesis using assms(2) True by (cases "h ! n") (simp_all add: GetEcho_def)
next
  case False
  then show ?thesis using assms(2) by (simp add: GetEcho_def)
qed

text \<open>Every successful GetEcho either leaves the command as it was or copies one of the
  recorded lines over it.\<close>

lemma GetEcho_Inr_cases:
  assumes "hist_inv h n" "GetEcho h command n = Inr (command', evs)"
  shows "command' = command \<or>
         (\<exists>k < n. command' = strcpy_buf command (hist_list h n ! k) \<and> line_ok (hist_list h n ! k)
                  \<and> length (hist_list h n ! k) < length command)"
proof (cases "int n < echo_value command")
  case True
  then show ?thesis using assms(2) by (simp add: GetEcho_out_of_range_aux)
next
  case False
  show ?thesis
  proof (cases "1 \<le> echo_value command")
    case True
    let ?k = "n - nat (echo_value command)"
    have k: "?k < n" using True False by simp
    obtain b where "h ! ?k = Ptr b" "contents b = hist_list h n ! ?k" "line_ok (contents b)"
      using hist_inv_slot [OF assms(1) k] by blast
    then show ?thesis using assms(2) False True k
      by (auto simp: GetEcho_def Let_def nat_diff_distrib split: if_splits)
  next
    case lt1: False
    then have "echo_value command \<le> 0" by simp
    have "\<not> (GetEcho h command n = Inr (command', evs))"
    proof (cases "echo_value command = 0")
      case True
      then show ?thesis using GetEcho_zero_aux [OF assms(1) True] by auto
    next
      case nz: False
      with lt1 have neg: "echo_value command < 0" by simp
      have len: "length h = HISTORY_CAPACITY" using assms(1) by (simp add: hist_inv_def hist_wf_def)
      show ?thesis
      proof (cases "nat (int n - echo_value command) < length h")
        case True
        have "\<not> is_ptr (h ! nat (int n - echo_value command))"
          using hist_inv_unset [OF assms(1) _ True] neg by simp
        then show ?thesis using False neg True len
          by (cases "h ! nat (int n - echo_value command)") (auto simp: GetEcho_def Let_def)
      next
        case False
        then show ?thesis using neg len by (auto simp: GetEcho_def Let_def)
      qed
    qed
    with assms(2) show ?thesis by simp
  qed
qed

section \<open>Properties of recall\<close>

text \<open>C25: a recall request \<^verbatim>\<open>!!\<close> has number 1, a request \<^verbatim>\<open>!d\<close> with a
  decimal digit d has number d, and every other two-character request starting with
  \<open>!\<close> has number 0.\<close>

theorem echo_value_recall:
  assumes "is_recall command"
  shows "echo_value command =
           (if command ! 1 = BANG then 1
            else if is_digit (command ! 1) then digit_value (command ! 1) else 0)"
  using echo_value_recall_aux [OF assms] .

text \<open>C4: a recall number N with \<open>1 \<le> N \<le> history_size\<close> copies the N-th most
  recent line (position \<open>history_size - N\<close>, oldest first, counted from 0) over the
  command buffer, echoes it with a newline and sleeps one second. The spec's \<^verbatim>\<open>!N\<close>
  names the N-th oldest line instead; the two agree only for the middle entry.\<close>

theorem GetEcho_resolves:
  assumes "hist_inv h n" "length command = COMMAND_SIZE"
    and "1 \<le> echo_value command" "echo_value command \<le> int n"
  shows "GetEcho h command n =
           Inr (strcpy_buf command (hist_list h n ! (n - nat (echo_value command))),
                [Out (hist_list h n ! (n - nat (echo_value command)) @ [NL]), Sleep 1])"
  using GetEcho_resolves_aux [OF assms] .

text \<open>C23: a recall number above the history size prints the error text (without a
  newline) and leaves the command buffer unchanged; GetEcho itself does not stop the
  command from being run.\<close>

theorem GetEcho_out_of_range:
  assumes "int n < echo_value command"
  shows "GetEcho h command n =
           Inr (command, [Out (''error: there have not been '' @ dec_string (echo_value command) @
                               '' command(s) entered'')])"
  using GetEcho_out_of_range_aux [OF assms] .

text \<open>C24: a recall number of 0 (\<^verbatim>\<open>!0\<close>, or \<open>!\<close> followed by any character
  that is not a digit) makes GetEcho read \<open>history[history_size]\<close>, which is never a
  valid pointer: NULL or uninitialised below ten, past the array at ten.\<close>

theorem GetEcho_zero_undefined:
  assumes "hist_inv h n" "echo_value command = 0"
  shows "\<exists>e. GetEcho h command n = Inl e"
  using GetEcho_zero_aux [OF assms] .

text \<open>C10: a line recorded by AddToHistory is what \<^verbatim>\<open>!!\<close> recalls next: on a
  history that satisfies the invariant, recording a line and then resolving a
  \<^verbatim>\<open>!!\<close> request copies that same line back into the command buffer and echoes
  it (the round trip of record and recall).\<close>

theorem record_then_recall:
  assumes "hist_inv h n" "line_ok x" "AddToHistory h x n = Inr (h', n')"
    and "length command = COMMAND_SIZE" "command ! 1 = BANG"
  shows "GetEcho h' command n' = Inr (strcpy_buf command x, [Out (x @ [NL]), Sleep 1])"
proof -
  obtain h2 n2 where a: "AddToHistory h x n = Inr (h2, n2)" and inv: "hist_inv h2 n2"
    and hl: "hist_list h2 n2 = ring_record (hist_list h n) x"
    using AddToHistory_inv [OF assms(1,2)] by blast
  have eq: "h2 = h'" "n2 = n'" using a assms(3) by simp_all
  have len: "length (hist_list h' n') = n'"
    using inv eq length_hist_list by (simp add: hist_inv_def)
  have ne: "hist_list h' n' \<noteq> []" and lst: "last (hist_list h' n') = x"
    using hl eq ring_record_last by simp_all
  then have n1: "1 \<le> n'" using len by (cases n') auto
  have ev: "echo_value command = 1" using assms(5) by (simp add: echo_value_def)
  have "hist_list h' n' ! (n' - 1) = x" using lst ne len by (simp add: last_conv_nth)
  then show ?thesis
    using GetEcho_resolves_aux [OF inv [unfolded eq] assms(4)] ev n1 by simp
qed

text \<open>Witnesses, on the history after the commands \<^verbatim>\<open>ls\<close> and \<^verbatim>\<open>pwd\<close>
  and a 100-byte command buffer. The second shows the divergence from the spec:
  \<^verbatim>\<open>!1\<close> recalls \<^verbatim>\<open>pwd\<close>, the newest line, not the first.\<close>

lemma hist_ls_pwd_inv:
  "hist_inv (history_init[0 := Ptr (Block (Some 1) ''ls''), 1 := Ptr (Block (Some 2) ''pwd'')]) 2"
  by (simp add: hist_inv_def hist_wf_def hist_list_def line_ok_def history_init_def shell_consts
      numeral_eq_Suc)

theorem echo_value_recall_witness:
  "is_recall (''!!'' @ replicate 98 NUL) \<and> echo_value (''!!'' @ replicate 98 NUL) = 1"
proof -
  have r: "is_recall (''!!'' @ replicate 98 NUL)"
    by (simp add: is_recall_def cstr_at_def numeral_eq_Suc)
  show ?thesis using echo_value_recall [OF r] r by simp
qed

theorem GetEcho_resolves_witness:
  "hist_inv (history_init[0 := Ptr (Block (Some 1) ''ls''), 1 := Ptr (Block (Some 2) ''pwd'')]) 2 \<and>
   length (''!1'' @ replicate 98 NUL) = COMMAND_SIZE \<and>
   1 \<le> echo_value (''!1'' @ replicate 98 NUL) \<and> echo_value (''!1'' @ replicate 98 NUL) \<le> int 2 \<and>
   GetEcho (history_init[0 := Ptr (Block (Some 1) ''ls''), 1 := Ptr (Block (Some 2) ''pwd'')])
     (''!1'' @ replicate 98 NUL) 2 =
   Inr (strcpy_buf (''!1'' @ replicate 98 NUL) ''pwd'', [Out (''pwd'' @ [NL]), Sleep 1])"
proof -
  have e: "echo_value (''!1'' @ replicate 98 NUL) = 1"
    by (simp add: echo_value_def cstr_at_def atoi_def is_space_def is_digit_def digit_value_def
        numeral_eq_Suc)
  have l: "length (''!1'' @ replicate 98 NUL) = COMMAND_SIZE" by (simp add: shell_consts)
  have hl: "hist_list (history_init[0 := Ptr (Block (Some 1) ''ls''), 1 := Ptr (Block (Some 2) ''pwd'')]) 2
              = [''ls'', ''pwd'']"
    by (simp add: hist_list_def history_init_def shell_consts numeral_eq_Suc)
  show ?thesis
    using GetEcho_resolves [OF hist_ls_pwd_inv l] e l hist_ls_pwd_inv hl by simp
qed

theorem GetEcho_out_of_range_witness:
  "int 2 < echo_value (''!5'' @ replicate 98 NUL) \<and>
   GetEcho history_init (''!5'' @ replicate 98 NUL) 2 =
     Inr (''!5'' @ replicate 98 NUL, [Out (''error: there have not been 5 command(s) entered'')])"
proof -
  have e: "echo_value (''!5'' @ replicate 98 NUL) = 5"
    by (simp add: echo_value_def cstr_at_def atoi_def is_space_def is_digit_def digit_value_def
        numeral_eq_Suc)
  then have lt: "int 2 < echo_value (''!5'' @ replicate 98 NUL)" by simp
  show ?thesis
    using GetEcho_out_of_range [OF lt, of history_init] e
    by (simp add: dec_string_def nat_digits.simps digit_char_def)
qed

theorem GetEcho_zero_undefined_witness:
  "hist_inv (history_init[0 := Ptr (Block (Some 1) ''ls''), 1 := Ptr (Block (Some 2) ''pwd'')]) 2 \<and>
   echo_value (''!0'' @ replicate 98 NUL) = 0 \<and>
   (\<exists>e. GetEcho (history_init[0 := Ptr (Block (Some 1) ''ls''), 1 := Ptr (Block (Some 2) ''pwd'')])
          (''!0'' @ replicate 98 NUL) 2 = Inl e)"
proof -
  have e: "echo_value (''!0'' @ replicate 98 NUL) = 0"
    by (simp add: echo_value_def cstr_at_def atoi_def is_space_def is_digit_def digit_value_def
        numeral_eq_Suc)
  show ?thesis using GetEcho_zero_undefined [OF hist_ls_pwd_inv e] hist_ls_pwd_inv e by simp
qed

theorem record_then_recall_witness:
  "hist_inv history_init 0 \<and> line_ok ''ls'' \<and>
   AddToHistory history_init ''ls'' 0 = Inr (history_init[0 := Ptr (Block (Some 1) ''ls'')], 1) \<and>
   length (''!!'' @ replicate 98 NUL) = COMMAND_SIZE \<and> (''!!'' @ replicate 98 NUL) ! 1 = BANG \<and>
   GetEcho (history_init[0 := Ptr (Block (Some 1) ''ls'')]) (''!!'' @ replicate 98 NUL) 1 =
     Inr (strcpy_buf (''!!'' @ replicate 98 NUL) ''ls'', [Out (''ls'' @ [NL]), Sleep 1])"
proof -
  have add: "AddToHistory history_init ''ls'' 0 = Inr (history_init[0 := Ptr (Block (Some 1) ''ls'')], 1)"
    by (simp add: AddToHistory_def history_init_def shell_consts strlen_plus1_def)
  have ok: "line_ok ''ls''" by (simp add: line_ok_def shell_consts)
  have l: "length (''!!'' @ replicate 98 NUL) = COMMAND_SIZE" by (simp add: shell_consts)
  have b: "(''!!'' @ replicate 98 NUL) ! 1 = BANG" by (simp add: shell_consts)
  show ?thesis
    using record_then_recall [OF history_init_inv ok add l b] history_init_inv ok add l b by simp
qed

end
