(* ===== verification/Input.thy ===== *)
theory Input
  imports Shell_Prelude
begin

text \<open>
  Reading a command: \<open>GetCommand\<close> (DougsShell.c lines 126--143) clears the first 99
  bytes of the command buffer, prints the prompt, reads one line with
  \<open>fgets(command, COMMAND_SIZE, stdin)\<close> and replaces the newline by a terminator
  unless the line is empty. Standard input is a character stream consumed from the
  front; \<open>fgets\<close> is modelled from the C standard: it reads up to \<open>n - 1\<close>
  characters, stopping after a newline, stores them with a terminator, and returns NULL
  (leaving the buffer as it was) when end of file comes before any character.
\<close>

section \<open>fgets\<close>

fun fgets_read :: "nat \<Rightarrow> char list \<Rightarrow> char list \<times> char list" where
  "fgets_read 0 inp = ([], inp)"
| "fgets_read (Suc k) [] = ([], [])"
| "fgets_read (Suc k) (c # cs) =
     (if c = NL then ([c], cs) else (let (r, rest) = fgets_read k cs in (c # r, rest)))"

text \<open>\<open>fgets(buf, n, stdin)\<close>: \<open>None\<close> stands for the NULL return.\<close>

definition fgets :: "buffer \<Rightarrow> nat \<Rightarrow> char list \<Rightarrow> buffer option \<times> char list" where
  "fgets buf n inp =
     (let (r, rest) = fgets_read (n - 1) inp in
      if r = [] then (None, rest) else (Some (r @ NUL # drop (Suc (length r)) buf), rest))"

section \<open>GetCommand\<close>

definition PROMPT :: string where
  "PROMPT = ''DougsShell--->''"

text \<open>\<open>GetCommand(command)\<close> on the buffer and the remaining input: the new buffer, the
  input left, and what was printed. On a NULL from fgets the code prints the perror
  message and keeps the cleared buffer, whose C string is empty.\<close>

definition GetCommand :: "buffer \<Rightarrow> char list \<Rightarrow> buffer \<times> char list \<times> event list" where
  "GetCommand command stdin =
     (let command = memset_nul (COMMAND_SIZE - 1) command in
      case fgets command COMMAND_SIZE stdin of
        (None, rest) \<Rightarrow> (command, rest, [Out PROMPT, Perror (''command input failed'' @ [NL])])
      | (Some command', rest) \<Rightarrow>
          (if command' ! 0 \<noteq> NL \<and> NL \<in> set (cstr command')
           then (command'[length (takeWhile (\<lambda>c. c \<noteq> NL) (cstr command')) := NUL], rest, [Out PROMPT])
           else (command', rest, [Out PROMPT])))"

text \<open>The buffer invariant of the shell: 100 bytes whose C string is shorter than the
  buffer, so a terminator lies inside it.\<close>

definition cmd_ok :: "buffer \<Rightarrow> bool" where
  "cmd_ok buf \<longleftrightarrow> length buf = COMMAND_SIZE \<and> length (cstr buf) < COMMAND_SIZE"

section \<open>Lemmas\<close>

lemma fgets_read_append: "fgets_read k inp = (r, rest) \<Longrightarrow> inp = r @ rest"
  by (induction k inp arbitrary: r rule: fgets_read.induct)
     (auto split: if_splits prod.splits)

lemma fgets_read_length: "fgets_read k inp = (r, rest) \<Longrightarrow> length r \<le> k"
  by (induction k inp arbitrary: r rule: fgets_read.induct)
     (auto split: if_splits prod.splits)

lemma fgets_read_line:
  "NL \<notin> set line \<Longrightarrow> length line < k \<Longrightarrow> fgets_read k (line @ NL # rest) = (line @ [NL], rest)"
proof (induction line arbitrary: k)
  case Nil
  then show ?case by (cases k) simp_all
next
  case (Cons c cs)
  then obtain k' where "k = Suc k'" and "length cs < k'" by (cases k) auto
  with Cons show ?case by auto
qed

lemma fgets_read_long:
  "NL \<notin> set (take k inp) \<Longrightarrow> k \<le> length inp \<Longrightarrow> fgets_read k inp = (take k inp, drop k inp)"
proof (induction k inp rule: fgets_read.induct)
  case (3 k c cs)
  then show ?case by (auto split: prod.splits)
qed simp_all

lemma fgets_read_nl_first: "fgets_read k inp = (r, rest) \<Longrightarrow> r \<noteq> [] \<Longrightarrow> hd r = NL \<Longrightarrow> r = [NL]"
  by (induction k inp arbitrary: r rule: fgets_read.induct) (auto split: if_splits prod.splits)

lemma GetCommand_buffer:
  assumes "length command = COMMAND_SIZE" "GetCommand command inp = (c', rest, evs)"
  shows "cmd_ok c' \<and> (\<exists>r. inp = r @ rest)"
proof -
  let ?c1 = "memset_nul (COMMAND_SIZE - 1) command"
  obtain r rs where fr: "fgets_read (COMMAND_SIZE - 1) inp = (r, rs)" by fastforce
  have app: "inp = r @ rs" using fgets_read_append [OF fr] .
  have lr: "length r \<le> COMMAND_SIZE - 1" using fgets_read_length [OF fr] .
  show ?thesis
  proof (cases "r = []")
    case True
    then have "c' = ?c1" "rest = rs"
      using assms(2) fr by (simp_all add: GetCommand_def fgets_def)
    moreover have "length (cstr ?c1) < COMMAND_SIZE"
      using assms(1) by (simp add: memset_nul_def cstr_at_def shell_consts numeral_eq_Suc)
    ultimately show ?thesis using assms(1) app True by (simp add: cmd_ok_def)
  next
    case False
    let ?c2 = "r @ NUL # drop (Suc (length r)) ?c1"
    have len2: "length ?c2 = COMMAND_SIZE" using lr assms(1) by (simp add: shell_consts)
    have cs2: "length (cstr ?c2) \<le> length r"
      by (simp add: cstr_at_def takeWhile_append length_takeWhile_le split: if_splits)
    let ?p = "length (takeWhile (\<lambda>c. c \<noteq> NL) (cstr ?c2))"
    have g: "GetCommand command inp =
               (if ?c2 ! 0 \<noteq> NL \<and> NL \<in> set (cstr ?c2) then (?c2[?p := NUL], rs, [Out PROMPT])
                else (?c2, rs, [Out PROMPT]))"
      using fr False by (simp add: GetCommand_def fgets_def Let_def)
    have p: "?p \<le> length (cstr ?c2)" by (rule length_takeWhile_le)
    have c: "c' = ?c2 \<or> (\<exists>p. p \<le> length (cstr ?c2) \<and> c' = ?c2[p := NUL])" and re: "rest = rs"
      using assms(2) g p by (auto split: if_splits)
    have "length c' = COMMAND_SIZE \<and> length (cstr c') \<le> length r"
      using c len2 cs2 cstr_update_nul [of _ ?c2] by auto
    then show ?thesis using lr app re by (simp add: cmd_ok_def shell_consts)
  qed
qed

lemma GetCommand_eof:
  assumes "length command = COMMAND_SIZE"
  shows "\<exists>c'. GetCommand command [] = (c', [], [Out PROMPT, Perror (''command input failed'' @ [NL])])
              \<and> cstr c' = []"
  using assms by (simp add: GetCommand_def fgets_def memset_nul_def cstr_at_def shell_consts
      numeral_eq_Suc)

lemma GetCommand_reads_line:
  assumes "length command = COMMAND_SIZE" "NL \<notin> set line" "NUL \<notin> set line"
    and "length line < COMMAND_SIZE - 1"
  shows "\<exists>c'. GetCommand command (line @ NL # rest) = (c', rest, [Out PROMPT])
              \<and> cstr c' = (if line = [] then [NL] else line)"
proof -
  let ?c1 = "memset_nul (COMMAND_SIZE - 1) command"
  let ?c2 = "line @ NL # NUL # drop (Suc (Suc (length line))) ?c1"
  have fr: "fgets_read (COMMAND_SIZE - 1) (line @ NL # rest) = (line @ [NL], rest)"
    using fgets_read_line assms(2,4) by simp
  have cs: "cstr ?c2 = line @ [NL]"
    using assms(3) cstr_at_append_nul [of "line @ [NL]"] by simp
  show ?thesis
  proof (cases line)
    case Nil
    then show ?thesis using fr cs by (simp add: GetCommand_def fgets_def)
  next
    case (Cons x xs)
    with assms(2) have x: "x \<noteq> NL" by auto
    have tw: "takeWhile (\<lambda>c. c \<noteq> NL) (line @ [NL]) = line"
      using assms(2) by (simp add: takeWhile_append)
    have "cstr (?c2[length line := NUL]) = line"
      using cstr_update_nul [of "length line" ?c2] cs by simp
    then show ?thesis using fr cs Cons x tw by (simp add: GetCommand_def fgets_def)
  qed
qed

text \<open>C32: a line of fewer than 99 characters, without NUL, followed by a newline, is read
  whole: the newline is replaced by the terminator, except for the empty line, which
  stays \<^verbatim>\<open>"\n"\<close> (the code's mark for "re-prompt"); the prompt is printed and the
  rest of the input is left unread.\<close>

theorem GetCommand_line:
  assumes "length command = COMMAND_SIZE" "NL \<notin> set line" "NUL \<notin> set line"
    and "length line < COMMAND_SIZE - 1"
  shows "\<exists>c'. GetCommand command (line @ NL # rest) = (c', rest, [Out PROMPT])
              \<and> cstr c' = (if line = [] then [NL] else line)"
  using GetCommand_reads_line [OF assms] .

text \<open>C33: a line of 99 characters or more is not read whole: the command is its first 99
  characters and the rest of the line stays in the input, where the next GetCommand
  reads it as a command of its own.\<close>

theorem GetCommand_long:
  assumes "length command = COMMAND_SIZE" "COMMAND_SIZE - 1 \<le> length inp"
    and "NL \<notin> set (take (COMMAND_SIZE - 1) inp)" "NUL \<notin> set (take (COMMAND_SIZE - 1) inp)"
  shows "\<exists>c'. GetCommand command inp = (c', drop (COMMAND_SIZE - 1) inp, [Out PROMPT])
              \<and> cstr c' = take (COMMAND_SIZE - 1) inp"
proof -
  let ?r = "take (COMMAND_SIZE - 1) inp"
  let ?c2 = "?r @ NUL # drop (Suc (length ?r)) (memset_nul (COMMAND_SIZE - 1) command)"
  have fr: "fgets_read (COMMAND_SIZE - 1) inp = (?r, drop (COMMAND_SIZE - 1) inp)"
    using fgets_read_long assms(2,3) by simp
  have ne: "?r \<noteq> []" using assms(2) by (auto simp: shell_consts)
  have cs: "cstr ?c2 = ?r" using assms(4) cstr_at_append_nul by simp
  show ?thesis using fr ne cs assms(3) by (simp add: GetCommand_def fgets_def Let_def)
qed

lemma GetCommand_one_line:
  assumes "length command = COMMAND_SIZE" "GetCommand command inp = (c', rest, evs)"
  shows "NL \<in> set (cstr c') \<longrightarrow> cstr c' = [NL]"
proof -
  let ?c1 = "memset_nul (COMMAND_SIZE - 1) command"
  obtain r rs where fr: "fgets_read (COMMAND_SIZE - 1) inp = (r, rs)" by fastforce
  show ?thesis
  proof (cases "r = []")
    case True
    then have "c' = ?c1" using assms(2) fr by (simp add: GetCommand_def fgets_def)
    then show ?thesis using assms(1) by (simp add: memset_nul_def cstr_at_def shell_consts numeral_eq_Suc)
  next
    case False
    let ?c2 = "r @ NUL # drop (Suc (length r)) ?c1"
    let ?p = "length (takeWhile (\<lambda>c. c \<noteq> NL) (cstr ?c2))"
    have g: "GetCommand command inp =
               (if ?c2 ! 0 \<noteq> NL \<and> NL \<in> set (cstr ?c2) then (?c2[?p := NUL], rs, [Out PROMPT])
                else (?c2, rs, [Out PROMPT]))"
      using fr False by (simp add: GetCommand_def fgets_def Let_def)
    show ?thesis
    proof (cases "?c2 ! 0 \<noteq> NL \<and> NL \<in> set (cstr ?c2)")
      case True
      have c': "c' = ?c2[?p := NUL]" using g True assms(2) by simp
      have p: "?p \<le> length (cstr ?c2)" by (rule length_takeWhile_le)
      have "cstr c' = take ?p (cstr ?c2)" unfolding c' by (rule cstr_update_nul [OF p])
      then have "cstr c' = takeWhile (\<lambda>c. c \<noteq> NL) (cstr ?c2)" by (rule trans [OF _ takeWhile_eq_take [symmetric]])
      then show ?thesis by (auto dest: set_takeWhileD)
    next
      case c: False
      then have c': "c' = ?c2" using g assms(2) by auto
      show ?thesis
      proof
        assume "NL \<in> set (cstr c')"
        then have "?c2 ! 0 = NL" using c c' by blast
        then have "hd r = NL" using False by (simp add: hd_conv_nth nth_append)
        then have "r = [NL]" using fgets_read_nl_first [OF fr False] by simp
        then show "cstr c' = [NL]" using c' cstr_at_append_prefix [of r] by simp
      qed
    qed
  qed
qed

text \<open>C22: GetCommand always leaves a well-formed command: a 100-byte buffer holding a
  terminated string, read from at most 99 characters at the front of the input; and
  the string holds one line: it contains no newline, except for the empty line, which
  is exactly \<^verbatim>\<open>"\n"\<close>.\<close>

theorem GetCommand_wf:
  assumes "length command = COMMAND_SIZE" "GetCommand command inp = (c', rest, evs)"
  shows "cmd_ok c' \<and> (\<exists>r. inp = r @ rest \<and> length r < COMMAND_SIZE)
         \<and> (NL \<in> set (cstr c') \<longrightarrow> cstr c' = [NL])"
proof -
  obtain r rs where fr: "fgets_read (COMMAND_SIZE - 1) inp = (r, rs)" by fastforce
  have "inp = r @ rs" "length r \<le> COMMAND_SIZE - 1"
    using fgets_read_append [OF fr] fgets_read_length [OF fr] by simp_all
  moreover have "rest = rs"
    using assms(2) fr by (auto simp: GetCommand_def fgets_def Let_def split: if_splits)
  ultimately show ?thesis
    using GetCommand_buffer [OF assms] GetCommand_one_line [OF assms] by (auto simp: shell_consts)
qed

text \<open>Witnesses.\<close>

theorem GetCommand_line_witness:
  "length (replicate 100 NUL) = COMMAND_SIZE \<and> NL \<notin> set ''ls'' \<and> NUL \<notin> set ''ls'' \<and>
   length ''ls'' < COMMAND_SIZE - 1 \<and>
   (\<exists>c'. GetCommand (replicate 100 NUL) (''ls'' @ NL # ''pwd'') = (c', ''pwd'', [Out PROMPT])
         \<and> cstr c' = ''ls'')"
proof -
  have h: "length (replicate 100 NUL) = COMMAND_SIZE" "NL \<notin> set ''ls''" "NUL \<notin> set ''ls''"
    "length ''ls'' < COMMAND_SIZE - 1" by (simp_all add: shell_consts)
  show ?thesis using GetCommand_line [OF h, of "''pwd''"] h by simp
qed

theorem GetCommand_long_witness:
  "length (replicate 100 NUL) = COMMAND_SIZE \<and> COMMAND_SIZE - 1 \<le> length (replicate 100 (CHR ''a'')) \<and>
   NL \<notin> set (take (COMMAND_SIZE - 1) (replicate 100 (CHR ''a''))) \<and>
   NUL \<notin> set (take (COMMAND_SIZE - 1) (replicate 100 (CHR ''a''))) \<and>
   (\<exists>c'. GetCommand (replicate 100 NUL) (replicate 100 (CHR ''a'')) = (c', [CHR ''a''], [Out PROMPT])
         \<and> cstr c' = replicate 99 (CHR ''a''))"
proof -
  have h: "length (replicate 100 NUL) = COMMAND_SIZE" "COMMAND_SIZE - 1 \<le> length (replicate 100 (CHR ''a''))"
    "NL \<notin> set (take (COMMAND_SIZE - 1) (replicate 100 (CHR ''a'')))"
    "NUL \<notin> set (take (COMMAND_SIZE - 1) (replicate 100 (CHR ''a'')))"
    by (simp_all add: shell_consts)
  show ?thesis using GetCommand_long [OF h] h by (simp add: shell_consts)
qed

theorem GetCommand_wf_witness:
  "length (replicate 100 NUL) = COMMAND_SIZE \<and>
   (\<exists>c' rest evs. GetCommand (replicate 100 NUL) (NL # ''ls'') = (c', rest, evs) \<and> cmd_ok c'
      \<and> (\<exists>r. NL # ''ls'' = r @ rest \<and> length r < COMMAND_SIZE)
      \<and> (NL \<in> set (cstr c') \<longrightarrow> cstr c' = [NL]))"
proof -
  have l: "length (replicate 100 NUL) = COMMAND_SIZE" by (simp add: shell_consts)
  obtain c' rest evs where g: "GetCommand (replicate 100 NUL) (NL # ''ls'') = (c', rest, evs)"
    by (metis prod_cases3)
  show ?thesis using GetCommand_wf [OF l g] l g by blast
qed

end
