(* ===== verification/Tokenizer.thy ===== *)
theory Tokenizer
  imports Shell_Prelude
begin

text \<open>
  Tokenising a command: \<open>ParseCommand\<close> (DougsShell.c lines 147--160) calls
  \<open>strtok(command, " ")\<close> and then \<open>strtok(NULL, " ")\<close> until it returns NULL,
  storing each token pointer in \<open>args[i++]\<close>. \<open>strtok\<close> is modelled from its libc
  meaning on the command buffer: skip spaces, stop at the terminator, else take the
  token up to the next space or terminator and overwrite that space with a terminator;
  a token is a pointer, here an offset into the buffer. The argument slots are
  \<open>char *arguments[ARGUMENT_SIZE]\<close> of \<open>main\<close>, which only the byte-counted
  memsets of lines 47 and 112 ever clear; \<open>argv_of\<close> is what execvp reads from
  them. \<open>tokens\<close> is the spec's tokenizer (section 4.1): the maximal runs of
  non-space characters, left to right.
\<close>

section \<open>strtok\<close>

definition strspn_sp :: "char list \<Rightarrow> nat" where
  "strspn_sp cs = length (takeWhile (\<lambda>c. c = SP) cs)"

definition strcspn_sp :: "char list \<Rightarrow> nat" where
  "strcspn_sp cs = length (takeWhile (\<lambda>c. c \<noteq> SP \<and> c \<noteq> NUL) cs)"

text \<open>One call of strtok with delimiter \<open>" "\<close> that continues at offset \<open>p\<close>: the
  buffer afterwards, the token (None for NULL) and where the next call continues.\<close>

definition strtok :: "buffer \<Rightarrow> nat \<Rightarrow> buffer \<times> nat option \<times> nat" where
  "strtok buf p =
     (let t = p + strspn_sp (drop p buf) in
      if length buf \<le> t \<or> buf ! t = NUL then (buf, None, t)
      else
        (let e = t + strcspn_sp (drop t buf) in
         if e < length buf \<and> buf ! e = SP then (buf[e := NUL], Some t, Suc e)
         else (buf, Some t, e)))"

section \<open>ParseCommand\<close>

text \<open>Lines 155--159: store the token in \<open>args[i]\<close> and ask for the next one. A write
  past the array is undefined.\<close>

function parse_loop :: "buffer \<Rightarrow> nat ptr list \<Rightarrow> nat \<Rightarrow> nat option \<Rightarrow> nat \<Rightarrow> ub + (buffer \<times> nat ptr list)" where
  "parse_loop buf args i tokenPtr saved =
     (case tokenPtr of
        None \<Rightarrow> Inr (buf, args)
      | Some t \<Rightarrow>
          (if i < length args then
             (case strtok buf saved of
                (buf', tok', saved') \<Rightarrow> parse_loop buf' (args[i := Ptr t]) (Suc i) tok' saved')
           else Inl ArgsOverflow))"
  by pat_completeness auto
termination
proof (relation "measure (\<lambda>(buf, args, i, tok, sv).
                   2 * (length buf + 1 - sv) + (case tok of None \<Rightarrow> 0 | Some _ \<Rightarrow> 1))")
  txt \<open>Each call of strtok moves the continuation point forward and keeps the
    buffer's length; a call that finds a token moves it past the token.\<close>
  have progress: "length buf' = length buf \<and> sv \<le> sv' \<and> (tok' \<noteq> None \<longrightarrow> sv < sv' \<and> sv' \<le> length buf)"
    if st: "strtok buf sv = (buf', tok', sv')" for buf buf' :: buffer and sv sv' :: nat and tok'
  proof -
    let ?t = "sv + strspn_sp (drop sv buf)"
    let ?e = "?t + strcspn_sp (drop ?t buf)"
    have e: "?e \<le> length buf" if "?t < length buf"
    proof -
      have "length (takeWhile (\<lambda>c. c \<noteq> SP \<and> c \<noteq> NUL) (drop ?t buf)) \<le> length buf - ?t"
        using length_takeWhile_le [of "\<lambda>c. c \<noteq> SP \<and> c \<noteq> NUL" "drop ?t buf"] by simp
      with that show ?thesis unfolding strcspn_sp_def by arith
    qed
    have sp: "buf ! ?t \<noteq> SP" if "?t < length buf"
    proof -
      have "length (takeWhile (\<lambda>c. c = SP) (drop sv buf)) < length (drop sv buf)"
        using that by (simp add: strspn_sp_def)
      from nth_length_takeWhile [OF this] that show ?thesis by (simp add: strspn_sp_def)
    qed
    have pos: "0 < strcspn_sp (drop ?t buf)" if "?t < length buf" "buf ! ?t \<noteq> NUL"
    proof -
      have "drop ?t buf = buf ! ?t # drop (Suc ?t) buf"
        using that(1) by (rule Cons_nth_drop_Suc [symmetric])
      then show ?thesis using that sp [OF that(1)] unfolding strcspn_sp_def by simp
    qed
    show ?thesis
      using st e pos by (auto simp: strtok_def Let_def split: if_splits)
  qed
  fix buf x :: buffer and args :: "nat ptr list" and i saved t ya :: nat
    and tokenPtr xa :: "nat option" and y :: "nat option \<times> nat"
  assume tp: "tokenPtr = Some t" and "(x, y) = strtok buf saved" and "(xa, ya) = y"
  then have "strtok buf saved = (x, xa, ya)" by simp
  from progress [OF this]
  have "length x = length buf" "saved \<le> ya" "xa \<noteq> None \<longrightarrow> saved < ya \<and> ya \<le> length buf"
    by auto
  then show "((x, args[i := Ptr t], Suc i, xa, ya), buf, args, i, tokenPtr, saved)
             \<in> measure (\<lambda>(buf, args, i, tok, sv).
                   2 * (length buf + 1 - sv) + (case tok of None \<Rightarrow> 0 | Some _ \<Rightarrow> 1))"
    using tp by (cases xa) auto
qed simp

declare parse_loop.simps [simp del]

text \<open>\<open>ParseCommand(command, args)\<close>: the first call scans from the start of the
  buffer.\<close>

definition ParseCommand :: "buffer \<Rightarrow> nat ptr list \<Rightarrow> ub + (buffer \<times> nat ptr list)" where
  "ParseCommand command args =
     (case strtok command 0 of (command', tokenPtr, saved) \<Rightarrow> parse_loop command' args 0 tokenPtr saved)"

section \<open>The argument array\<close>

text \<open>\<open>char *arguments[ARGUMENT_SIZE]\<close> after \<open>memset(arguments, '\0', ARGUMENT_SIZE - 1)\<close>
  (lines 41 and 47), the array uninitialised before.\<close>

definition arguments_init :: "nat ptr list" where
  "arguments_init = memset_ptrs (ARGUMENT_SIZE - 1) (replicate ARGUMENT_SIZE Garbage)"

text \<open>What execvp reads as its \<open>argv\<close>: the strings the slots point to, up to the first
  NULL slot. An indeterminate slot, or running off the end of the array, is undefined.\<close>

fun argv_of :: "buffer \<Rightarrow> nat \<Rightarrow> nat ptr list \<Rightarrow> ub + string list" where
  "argv_of buf k [] = Inl ArgvUnterminated"
| "argv_of buf k (Null # _) = Inr []"
| "argv_of buf k (Garbage # _) = Inl (ArgvGarbage k)"
| "argv_of buf k (Ptr p # rest) =
     (case argv_of buf (Suc k) rest of Inl e \<Rightarrow> Inl e | Inr xs \<Rightarrow> Inr (cstr_at buf p # xs))"

text \<open>The argument slots as \<open>main\<close> hands them to ParseCommand: fifty slots, the
  first six NULL (the 49 bytes of the memset cover six whole pointers), and no NULL
  in the others: nothing but the memsets of lines 47 and 112 ever writes NULL there,
  and they reach only the first byte of slot 6.\<close>

definition args_ok :: "nat ptr list \<Rightarrow> bool" where
  "args_ok a \<longleftrightarrow> length a = ARGUMENT_SIZE \<and> take 6 a = replicate 6 Null \<and> Null \<notin> set (drop 6 a)"

section \<open>The spec's tokenizer\<close>

text \<open>Splitting at every space, then dropping the empty pieces: the maximal runs of
  non-space characters, in order.\<close>

fun split_on :: "char \<Rightarrow> string \<Rightarrow> string list" where
  "split_on d [] = [[]]"
| "split_on d (c # cs) =
     (if c = d then [] # split_on d cs
      else (case split_on d cs of [] \<Rightarrow> [[c]] | w # ws \<Rightarrow> (c # w) # ws))"

definition tokens :: "string \<Rightarrow> string list" where
  "tokens s = filter (\<lambda>w. w \<noteq> []) (split_on SP s)"

text \<open>The same split, one strtok call at a time: from offset \<open>k\<close>, skip the spaces,
  take a token, and overwrite the space after it with a terminator. It returns the
  string as strtok leaves it and the offsets of the tokens with their text.\<close>

function split_sp :: "nat \<Rightarrow> string \<Rightarrow> string \<times> (nat \<times> string) list" where
  "split_sp k s =
     (let n = length (takeWhile (\<lambda>c. c = SP) s); s1 = drop n s in
      if s1 = [] then (s, [])
      else
        (let w = takeWhile (\<lambda>c. c \<noteq> SP) s1; s2 = drop (length w) s1 in
         if s2 = [] then (s, [(k + n, w)])
         else
           (case split_sp (k + n + length w + 1) (tl s2) of
              (s', ts) \<Rightarrow> (take n s @ w @ NUL # s', (k + n, w) # ts))))"
  by pat_completeness auto
termination
proof (relation "measure (\<lambda>(k, s). length s)")
  fix k s n s1 w s2
  assume n: "n = length (takeWhile (\<lambda>c. c = SP) s)" and s1: "s1 = drop n s" and "s1 \<noteq> []"
    and w: "w = takeWhile (\<lambda>c. c \<noteq> SP) s1" and s2: "s2 = drop (length w) s1" and "s2 \<noteq> []"
  then show "((k + n + length w + 1, tl s2), k, s) \<in> measure (\<lambda>(k, s). length s)"
    by auto
qed simp

declare split_sp.simps [simp del]

text \<open>The argument slots after storing the offsets \<open>os\<close> from slot \<open>i\<close> on.\<close>

fun fill_from :: "nat \<Rightarrow> nat list \<Rightarrow> nat ptr list \<Rightarrow> nat ptr list" where
  "fill_from i [] args = args"
| "fill_from i (p # ps) args = fill_from (Suc i) ps (args[i := Ptr p])"

section \<open>The spec's tokenizer and the chunk-wise split\<close>


lemma split_on_nonempty: "split_on d s \<noteq> []"
  by (induction s) (auto split: list.split)

lemma split_on_prefix:
  "d \<notin> set w \<Longrightarrow> split_on d (w @ s) = (case split_on d s of v # vs \<Rightarrow> (w @ v) # vs)"
proof (induction w)
  case Nil
  then show ?case using split_on_nonempty [of d s] by (cases "split_on d s") auto
next
  case (Cons c w)
  then show ?case using split_on_nonempty [of d s] by (auto split: list.split)
qed

lemma tokens_spaces: "\<forall>c \<in> set sp. c = SP \<Longrightarrow> tokens (sp @ s) = tokens s"
  by (induction sp) (auto simp: tokens_def)

lemma tokens_word_end: "SP \<notin> set w \<Longrightarrow> w \<noteq> [] \<Longrightarrow> tokens w = [w]"
  using split_on_prefix [of SP w "[]"] by (simp add: tokens_def)

lemma tokens_word_sp: "SP \<notin> set w \<Longrightarrow> w \<noteq> [] \<Longrightarrow> tokens (w @ SP # r) = w # tokens r"
  using split_on_prefix [of SP w "SP # r"] by (simp add: tokens_def)


lemma chunk_decomp:
  fixes s :: string
  defines "n \<equiv> length (takeWhile (\<lambda>c. c = SP) s)"
  defines "s1 \<equiv> drop n s"
  defines "w \<equiv> takeWhile (\<lambda>c. c \<noteq> SP) s1"
  defines "s2 \<equiv> drop (length w) s1"
  shows "s = replicate n SP @ w @ s2" and "\<forall>c \<in> set (take n s). c = SP"
    and "take n s = replicate n SP"
    and "SP \<notin> set w" and "s1 = [] \<longleftrightarrow> w = []" and "s2 \<noteq> [] \<Longrightarrow> s2 = SP # tl s2"
proof -
  have t: "take n s = takeWhile (\<lambda>c. c = SP) s"
    unfolding n_def by (rule takeWhile_eq_take [symmetric])
  show sp: "\<forall>c \<in> set (take n s). c = SP" using t by (auto dest: set_takeWhileD)
  have "replicate (length (take n s)) SP = take n s"
    using sp by (rule replicate_length_same)
  moreover have "length (take n s) = n" using t n_def by simp
  ultimately show tr: "take n s = replicate n SP" by simp
  have "take (length w) s1 = w" unfolding w_def by (rule takeWhile_eq_take [symmetric])
  then have s1w: "s1 = w @ s2" unfolding s2_def by (metis append_take_drop_id)
  have "s = take n s @ s1" unfolding s1_def by simp
  then show "s = replicate n SP @ w @ s2" using tr s1w by simp
  show "SP \<notin> set w" unfolding w_def by (auto dest: set_takeWhileD)
  have s1d: "s1 = dropWhile (\<lambda>c. c = SP) s" unfolding s1_def n_def by (simp add: dropWhile_eq_drop)
  have hd1: "hd s1 \<noteq> SP" if "s1 \<noteq> []"
    using that hd_dropWhile [of "\<lambda>c. c = SP" s] s1d by simp
  show "s1 = [] \<longleftrightarrow> w = []"
    using hd1 unfolding w_def by (cases s1) auto
  have s2d: "s2 = dropWhile (\<lambda>c. c \<noteq> SP) s1" unfolding s2_def w_def by (simp add: dropWhile_eq_drop)
  show "s2 \<noteq> [] \<Longrightarrow> s2 = SP # tl s2"
  proof -
    assume ne: "s2 \<noteq> []"
    then have "hd s2 = SP" using hd_dropWhile [of "\<lambda>c. c \<noteq> SP" s1] s2d by simp
    with ne show ?thesis by (cases s2) auto
  qed
qed

lemma split_sp_unfold:
  fixes s :: string
  defines "n \<equiv> length (takeWhile (\<lambda>c. c = SP) s)"
  defines "s1 \<equiv> drop n s"
  defines "w \<equiv> takeWhile (\<lambda>c. c \<noteq> SP) s1"
  defines "s2 \<equiv> drop (length w) s1"
  shows "split_sp k s =
           (if s1 = [] then (s, [])
            else if s2 = [] then (s, [(k + n, w)])
            else (case split_sp (k + n + length w + 1) (tl s2) of
                    (s', ts) \<Rightarrow> (take n s @ w @ NUL # s', (k + n, w) # ts)))"
  unfolding n_def s1_def w_def s2_def by (subst split_sp.simps) (simp only: Let_def)

lemma split_sp_tokens: "map snd (snd (split_sp k s)) = tokens s"
proof (induction k s rule: split_sp.induct)
  case (1 k s)
  define n where "n = length (takeWhile (\<lambda>c. c = SP) s)"
  define s1 where "s1 = drop n s"
  define w where "w = takeWhile (\<lambda>c. c \<noteq> SP) s1"
  define s2 where "s2 = drop (length w) s1"
  note d = chunk_decomp [of s, folded n_def, folded s1_def, folded w_def, folded s2_def]
  note u = split_sp_unfold [of k s, folded n_def, folded s1_def, folded w_def, folded s2_def]
  have tk: "tokens s = tokens (w @ s2)"
    using tokens_spaces [of "replicate n SP" "w @ s2"] d(1) by simp
  show ?case
  proof (cases "s1 = []")
    case True
    then have "w = []" "s2 = []" using d(5) s2_def by simp_all
    with True tk u show ?thesis by (simp add: tokens_def)
  next
    case ne1: False
    then have wne: "w \<noteq> []" using d(5) by simp
    show ?thesis
    proof (cases "s2 = []")
      case True
      with ne1 tk wne d(4) u show ?thesis by (simp add: tokens_word_end)
    next
      case False
      then have s2: "s2 = SP # tl s2" using d(6) by simp
      have IH: "map snd (snd (split_sp (k + n + length w + 1) (tl s2))) = tokens (tl s2)"
        using "1.IH" [OF n_def s1_def ne1 w_def s2_def False] .
      have "tokens s = w # tokens (tl s2)"
        using tk tokens_word_sp [OF d(4) wne, of "tl s2"] s2 by simp
      with ne1 False IH u show ?thesis by (cases "split_sp (k + n + length w + 1) (tl s2)") simp
    qed
  qed
qed


section \<open>strtok on one chunk\<close>

lemma strspn_sp_chunk: "\<forall>c \<in> set sp. c = SP \<Longrightarrow> c \<noteq> SP \<Longrightarrow> strspn_sp (sp @ c # r) = length sp"
  by (induction sp) (auto simp: strspn_sp_def)

lemma strcspn_sp_chunk:
  "SP \<notin> set w \<Longrightarrow> NUL \<notin> set w \<Longrightarrow> c = SP \<or> c = NUL \<Longrightarrow> strcspn_sp (w @ c # r) = length w"
  by (induction w) (auto simp: strcspn_sp_def)

lemma strtok_chunk_none:
  assumes "\<forall>c \<in> set sp. c = SP"
  shows "strtok (pre @ sp @ NUL # rest) (length pre) = (pre @ sp @ NUL # rest, None, length pre + length sp)"
proof -
  have "strspn_sp (drop (length pre) (pre @ sp @ NUL # rest)) = length sp"
    using strspn_sp_chunk [OF assms, of NUL rest] by simp
  then show ?thesis by (simp add: strtok_def nth_append)
qed

lemma strtok_chunk_last:
  assumes "\<forall>c \<in> set sp. c = SP" "w \<noteq> []" "SP \<notin> set w" "NUL \<notin> set w"
  shows "strtok (pre @ sp @ w @ NUL # rest) (length pre) =
           (pre @ sp @ w @ NUL # rest, Some (length pre + length sp), length pre + length sp + length w)"
proof -
  obtain c w' where w: "w = c # w'" using assms(2) by (cases w) auto
  have c: "c \<noteq> SP" "c \<noteq> NUL" using assms(3,4) w by auto
  have sp: "strspn_sp (drop (length pre) (pre @ sp @ w @ NUL # rest)) = length sp"
    using strspn_sp_chunk [OF assms(1) c(1), of "w' @ NUL # rest"] w by simp
  have cs: "strcspn_sp (drop (length pre + length sp) (pre @ sp @ w @ NUL # rest)) = length w"
    using strcspn_sp_chunk [OF assms(3,4), of NUL rest] by simp
  show ?thesis using sp cs c w by (simp add: strtok_def Let_def nth_append)
qed

lemma strtok_chunk_mid:
  assumes "\<forall>c \<in> set sp. c = SP" "w \<noteq> []" "SP \<notin> set w" "NUL \<notin> set w"
  shows "strtok (pre @ sp @ w @ SP # rest) (length pre) =
           (pre @ sp @ w @ NUL # rest, Some (length pre + length sp), Suc (length pre + length sp + length w))"
proof -
  obtain c w' where w: "w = c # w'" using assms(2) by (cases w) auto
  have c: "c \<noteq> SP" "c \<noteq> NUL" using assms(3,4) w by auto
  have sp: "strspn_sp (drop (length pre) (pre @ sp @ w @ SP # rest)) = length sp"
    using strspn_sp_chunk [OF assms(1) c(1), of "w' @ SP # rest"] w by simp
  have cs: "strcspn_sp (drop (length pre + length sp) (pre @ sp @ w @ SP # rest)) = length w"
    using strcspn_sp_chunk [OF assms(3,4), of SP rest] by simp
  have upd: "(pre @ sp @ w @ SP # rest)[length pre + length sp + length w := NUL] = pre @ sp @ w @ NUL # rest"
    by (simp add: list_update_append)
  show ?thesis using sp cs c w upd by (simp add: strtok_def Let_def nth_append)
qed


section \<open>The loop of ParseCommand follows the split\<close>

lemma parse_loop_None [simp]: "parse_loop b args i None sv = Inr (b, args)"
  by (simp add: parse_loop.simps)

lemma parse_loop_Some:
  "parse_loop b args i (Some t) sv =
     (if i < length args then
        (case strtok b sv of (b', tok', sv') \<Rightarrow> parse_loop b' (args[i := Ptr t]) (Suc i) tok' sv')
      else Inl ArgsOverflow)"
  by (simp add: parse_loop.simps [of b args i "Some t" sv])

lemma parse_from_split:
  "k = length pre \<Longrightarrow> NUL \<notin> set s \<Longrightarrow> i \<le> length args \<Longrightarrow>
   (case strtok (pre @ s @ NUL # tail) k of (b, tok, sv) \<Rightarrow> parse_loop b args i tok sv) =
   (if i + length (snd (split_sp k s)) \<le> length args
    then Inr (pre @ fst (split_sp k s) @ NUL # tail, fill_from i (map fst (snd (split_sp k s))) args)
    else Inl ArgsOverflow)"
proof (induction k s arbitrary: pre args i rule: split_sp.induct)
  case (1 k s)
  define n where "n = length (takeWhile (\<lambda>c. c = SP) s)"
  define s1 where "s1 = drop n s"
  define w where "w = takeWhile (\<lambda>c. c \<noteq> SP) s1"
  define s2 where "s2 = drop (length w) s1"
  note d = chunk_decomp [of s, folded n_def, folded s1_def, folded w_def, folded s2_def]
  note u = split_sp_unfold [of k s, folded n_def, folded s1_def, folded w_def, folded s2_def]
  have sp: "\<forall>c \<in> set (replicate n SP). c = SP" by simp
  have nulw: "NUL \<notin> set w" using "1.prems"(2) d(1) by auto
  show ?case
  proof (cases "s1 = []")
    case True
    then have "w = []" "s2 = []" using d(5) s2_def by simp_all
    then have s: "s = replicate n SP" using d(1) by simp
    show ?thesis
      using strtok_chunk_none [OF sp, of pre tail] u True s "1.prems"(1,3) by simp
  next
    case ne1: False
    then have wne: "w \<noteq> []" using d(5) by simp
    show ?thesis
    proof (cases "s2 = []")
      case True
      then have s: "s = replicate n SP @ w" using d(1) by simp
      have st1: "strtok (pre @ s @ NUL # tail) k =
                   (pre @ s @ NUL # tail, Some (k + n), k + n + length w)"
        using strtok_chunk_last [OF sp wne d(4) nulw, of pre tail] s "1.prems"(1) by simp
      have st2: "strtok (pre @ s @ NUL # tail) (k + n + length w) =
                   (pre @ s @ NUL # tail, None, k + n + length w)"
        using strtok_chunk_none [of "[]" "pre @ replicate n SP @ w" tail] s "1.prems"(1)
        by (simp add: add.assoc)
      show ?thesis using st1 st2 u ne1 True by (simp add: parse_loop_Some)
    next
      case False
      then have s2: "s2 = SP # tl s2" using d(6) by simp
      let ?pre' = "pre @ replicate n SP @ w @ [NUL]"
      have s: "pre @ s @ NUL # tail = pre @ replicate n SP @ w @ SP # tl s2 @ NUL # tail"
        using d(1) s2 by (metis append.assoc append_Cons)
      have st1: "strtok (pre @ s @ NUL # tail) k =
                   (?pre' @ tl s2 @ NUL # tail, Some (k + n), k + n + length w + 1)"
        using strtok_chunk_mid [OF sp wne d(4) nulw, of pre "tl s2 @ NUL # tail"] s "1.prems"(1) by simp
      have nul2: "NUL \<notin> set (tl s2)" using "1.prems"(2) d(1) s2 by (metis list.set_intros(2) Un_iff set_append)
      have kk: "k + n + length w + 1 = length ?pre'" using "1.prems"(1) by simp
      note IH = "1.IH" [OF n_def s1_def ne1 w_def s2_def False kk nul2]
      show ?thesis
      proof (cases "i < length args")
        case True
        then have "Suc i \<le> length (args[i := Ptr (k + n)])" by simp
        from IH [OF this] True st1 u ne1 False d(3) show ?thesis
          by (cases "split_sp (k + n + length w + 1) (tl s2)") (simp add: parse_loop_Some)
      next
        case False
        with st1 u ne1 \<open>s2 \<noteq> []\<close> d(3) show ?thesis
          by (cases "split_sp (k + n + length w + 1) (tl s2)") (simp add: parse_loop_Some)
      qed
    qed
  qed
qed

section \<open>Where the tokens end up\<close>


lemma split_sp_length: "length (fst (split_sp k s)) = length s"
proof (induction k s rule: split_sp.induct)
  case (1 k s)
  define n where "n = length (takeWhile (\<lambda>c. c = SP) s)"
  define s1 where "s1 = drop n s"
  define w where "w = takeWhile (\<lambda>c. c \<noteq> SP) s1"
  define s2 where "s2 = drop (length w) s1"
  note d = chunk_decomp [of s, folded n_def, folded s1_def, folded w_def, folded s2_def]
  note u = split_sp_unfold [of k s, folded n_def, folded s1_def, folded w_def, folded s2_def]
  show ?case
  proof (cases "s1 = [] \<or> s2 = []")
    case True
    with u show ?thesis by auto
  next
    case False
    then have ne1: "s1 \<noteq> []" and ne2: "s2 \<noteq> []" by simp_all
    have IH: "length (fst (split_sp (k + n + length w + 1) (tl s2))) = length (tl s2)"
      using "1.IH" [OF n_def s1_def ne1 w_def s2_def ne2] .
    have "length s = n + length w + Suc (length (tl s2))"
      using d(1) d(6) [OF ne2] by (metis length_append length_replicate length_Cons add.assoc)
    with IH u ne1 ne2 d(3) show ?thesis
      by (cases "split_sp (k + n + length w + 1) (tl s2)") simp
  qed
qed

lemma split_sp_readback:
  "k = length pre \<Longrightarrow> NUL \<notin> set s \<Longrightarrow>
   list_all (\<lambda>(p, w). cstr_at (pre @ fst (split_sp k s) @ NUL # tail) p = w) (snd (split_sp k s))"
proof (induction k s arbitrary: pre rule: split_sp.induct)
  case (1 k s)
  define n where "n = length (takeWhile (\<lambda>c. c = SP) s)"
  define s1 where "s1 = drop n s"
  define w where "w = takeWhile (\<lambda>c. c \<noteq> SP) s1"
  define s2 where "s2 = drop (length w) s1"
  note d = chunk_decomp [of s, folded n_def, folded s1_def, folded w_def, folded s2_def]
  note u = split_sp_unfold [of k s, folded n_def, folded s1_def, folded w_def, folded s2_def]
  have nulw: "NUL \<notin> set w" using "1.prems"(2) d(1) by auto
  show ?case
  proof (cases "s1 = []")
    case True
    with u show ?thesis by simp
  next
    case ne1: False
    show ?thesis
    proof (cases "s2 = []")
      case True
      then have "pre @ s @ NUL # tail = (pre @ replicate n SP) @ w @ NUL # tail" using d(1) by simp
      then have "cstr_at (pre @ s @ NUL # tail) (k + n) = w"
        using cstr_at_mid [of "k + n" "pre @ replicate n SP" w tail] nulw "1.prems"(1) by simp
      with u ne1 True show ?thesis by simp
    next
      case False
      have nul2: "NUL \<notin> set (tl s2)" using "1.prems"(2) d(1) d(6) [OF False]
        by (metis list.set_intros(2) Un_iff set_append)
      let ?pre' = "pre @ replicate n SP @ w @ [NUL]"
      have kk: "k + n + length w + 1 = length ?pre'" using "1.prems"(1) by simp
      note IH = "1.IH" [OF n_def s1_def ne1 w_def s2_def False kk nul2]
      obtain s' ts where sp: "split_sp (k + n + length w + 1) (tl s2) = (s', ts)" by fastforce
      have hd: "cstr_at ((pre @ replicate n SP) @ w @ NUL # s' @ NUL # tail) (k + n) = w"
        using cstr_at_mid [where p = "k + n" and pre = "pre @ replicate n SP" and w = w] nulw "1.prems"(1) by simp
      show ?thesis using IH hd sp u ne1 False d(3) by simp
    qed
  qed
qed

lemma split_sp_count: "length (snd (split_sp k s)) \<le> (length s + 1) div 2"
proof (induction k s rule: split_sp.induct)
  case (1 k s)
  define n where "n = length (takeWhile (\<lambda>c. c = SP) s)"
  define s1 where "s1 = drop n s"
  define w where "w = takeWhile (\<lambda>c. c \<noteq> SP) s1"
  define s2 where "s2 = drop (length w) s1"
  note d = chunk_decomp [of s, folded n_def, folded s1_def, folded w_def, folded s2_def]
  note u = split_sp_unfold [of k s, folded n_def, folded s1_def, folded w_def, folded s2_def]
  show ?case
  proof (cases "s1 = []")
    case True
    with u show ?thesis by simp
  next
    case ne1: False
    then have wne: "w \<noteq> []" using d(5) by simp
    have ls: "length s = n + length w + length s2" using d(1) by simp
    show ?thesis
    proof (cases "s2 = []")
      case True
      have "1 \<le> length w" using wne by (cases w) auto
      then have "1 \<le> (length s + 1) div 2" using ls True by simp
      with u ne1 True show ?thesis by simp
    next
      case False
      have IH: "length (snd (split_sp (k + n + length w + 1) (tl s2))) \<le> (length (tl s2) + 1) div 2"
        using "1.IH" [OF n_def s1_def ne1 w_def s2_def False] .
      have "length s2 = Suc (length (tl s2))" using False by simp
      moreover have "1 \<le> length w" using wne by (cases w) auto
      ultimately have le: "length (tl s2) + 3 \<le> length s + 1" using ls by linarith
      obtain s' ts where sp: "split_sp (k + n + length w + 1) (tl s2) = (s', ts)" by fastforce
      have "length (snd (split_sp k s)) = Suc (length ts)" using u ne1 False sp by simp
      moreover have "length ts \<le> (length (tl s2) + 1) div 2" using IH sp by simp
      ultimately show ?thesis using le by presburger
    qed
  qed
qed

lemma fill_from_eq:
  "i + length ps \<le> length args \<Longrightarrow>
   fill_from i ps args = take i args @ map Ptr ps @ drop (i + length ps) args"
proof (induction ps arbitrary: i args)
  case Nil
  then show ?case by simp
next
  case (Cons p ps)
  then have "fill_from (Suc i) ps (args[i := Ptr p]) =
               take (Suc i) (args[i := Ptr p]) @ map Ptr ps @ drop (Suc i + length ps) (args[i := Ptr p])"
    by simp
  with Cons.prems show ?case by (simp add: take_Suc_conv_app_nth)
qed

lemma argv_of_map_Ptr:
  "argv_of buf k (map Ptr ps @ rest) =
     (case argv_of buf (k + length ps) rest of Inl e \<Rightarrow> Inl e | Inr xs \<Rightarrow> Inr (map (cstr_at buf) ps @ xs))"
  by (induction ps arbitrary: k) (simp_all split: sum.split)


section \<open>The argument slots\<close>


lemma memset_arguments:
  "length a = ARGUMENT_SIZE \<Longrightarrow>
   memset_ptrs (ARGUMENT_SIZE - 1) a =
     replicate 6 Null @ (case a ! 6 of Null \<Rightarrow> Null | _ \<Rightarrow> Garbage) # drop 7 a"
  using memset_ptrs_partial [of 6 a 1] by (simp add: shell_consts)

lemma arguments_init_ok: "args_ok arguments_init"
proof -
  have eq: "arguments_init = replicate 6 Null @ Garbage # drop 7 (replicate ARGUMENT_SIZE (Garbage :: nat ptr))"
    unfolding arguments_init_def by (subst memset_arguments) (simp_all add: shell_consts)
  show ?thesis unfolding args_ok_def eq by (simp add: shell_consts)
qed

lemma args_ok_refill:
  assumes "args_ok a" "length ps \<le> ARGUMENT_SIZE"
  shows "args_ok (memset_ptrs (ARGUMENT_SIZE - 1) (fill_from 0 ps a))"
proof -
  let ?a = "fill_from 0 ps a"
  have len: "length ?a = ARGUMENT_SIZE" using assms fill_from_eq [of 0 ps a] by (simp add: args_ok_def)
  have "?a = map Ptr ps @ drop (length ps) a"
    using assms fill_from_eq [of 0 ps a] by (simp add: args_ok_def)
  then have "set (drop 6 ?a) \<subseteq> Ptr ` set ps \<union> set (drop (6 - length ps + length ps) a)"
    by (auto simp: drop_append dest: in_set_dropD)
  moreover have "set (drop (6 - length ps + length ps) a) \<subseteq> set (drop 6 a)"
    by (rule set_drop_subset_set_drop) simp
  ultimately have "Null \<notin> set (drop 6 ?a)" using assms(1) by (auto simp: args_ok_def)
  then have "?a ! 6 \<noteq> Null" "Null \<notin> set (drop 7 ?a)"
    using len by (auto simp: shell_consts Cons_nth_drop_Suc [symmetric])
  then show ?thesis using len unfolding args_ok_def memset_arguments [OF len]
    by (auto simp: shell_consts split: ptr.split)
qed

lemma argv_of_no_null: "Null \<notin> set xs \<Longrightarrow> \<exists>e. argv_of buf k xs = Inl e"
proof (induction xs arbitrary: k)
  case Nil
  then show ?case by simp
next
  case (Cons x xs)
  obtain e where "argv_of buf (Suc k) xs = Inl e" using Cons by auto
  then show ?case using Cons.prems by (cases x) auto
qed


lemma tokens_count: "length (tokens s) \<le> (length s + 1) div 2"
  using split_sp_count [of 0 s] split_sp_tokens [of 0 s] by (metis length_map)

lemma ParseCommand_eq:
  assumes "length (cstr command) < length command"
  shows "ParseCommand command args =
           (if length (tokens (cstr command)) \<le> length args
            then Inr (fst (split_sp 0 (cstr command)) @ NUL # drop (Suc (length (cstr command))) command,
                      fill_from 0 (map fst (snd (split_sp 0 (cstr command)))) args)
            else Inl ArgsOverflow)"
proof -
  let ?s = "cstr command" and ?tl = "drop (Suc (length (cstr command))) command"
  have c: "command = [] @ ?s @ NUL # ?tl" using cstr_decomp [OF assms] by simp
  have "length (tokens ?s) = length (snd (split_sp 0 ?s))"
    using split_sp_tokens [of 0 ?s] by (metis length_map)
  then show ?thesis
    using parse_from_split [of 0 "[]" ?s 0 args ?tl] cstr_at_no_nul [of command 0]
    by (subst c, subst (2) c) (simp add: ParseCommand_def)
qed

lemma parse_result:
  assumes "length (cstr command) < length command" "length command \<le> 2 * length args"
  shows "\<exists>command' offs. ParseCommand command args = Inr (command', fill_from 0 offs args)
           \<and> length command' = length command \<and> map (cstr_at command') offs = tokens (cstr command)"
proof -
  let ?s = "cstr command" and ?tl = "drop (Suc (length (cstr command))) command"
  have "length (tokens ?s) \<le> length args"
    using tokens_count [of ?s] assms by linarith
  moreover have "length (fst (split_sp 0 ?s) @ NUL # ?tl) = length command"
    using assms(1) by (simp add: split_sp_length)
  moreover have "map (cstr_at (fst (split_sp 0 ?s) @ NUL # ?tl)) (map fst (snd (split_sp 0 ?s))) = tokens ?s"
  proof -
    have "list_all (\<lambda>(p, w). cstr_at (fst (split_sp 0 ?s) @ NUL # ?tl) p = w) (snd (split_sp 0 ?s))"
      using split_sp_readback [of 0 "[]" ?s ?tl] cstr_at_no_nul [of command 0] by simp
    then have "map (cstr_at (fst (split_sp 0 ?s) @ NUL # ?tl)) (map fst (snd (split_sp 0 ?s)))
                 = map snd (snd (split_sp 0 ?s))"
      by (rule map_fst_list_all)
    then show ?thesis by (simp add: split_sp_tokens)
  qed
  ultimately show ?thesis using ParseCommand_eq [OF assms(1), of args] by auto
qed

lemma ParseCommand_slots:
  assumes "args_ok args" "length command = COMMAND_SIZE" "length (cstr command) < COMMAND_SIZE"
  shows "\<exists>command' offs. ParseCommand command args = Inr (command', map Ptr offs @ drop (length offs) args)
           \<and> map (cstr_at command') offs = tokens (cstr command)"
proof -
  have "length command \<le> 2 * length args" using assms by (simp add: args_ok_def shell_consts)
  then obtain command' offs where p: "ParseCommand command args = Inr (command', fill_from 0 offs args)"
    and r: "map (cstr_at command') offs = tokens (cstr command)"
    using parse_result [of command args] assms(2,3) by auto
  have "length offs \<le> (length (cstr command) + 1) div 2"
    using r tokens_count [of "cstr command"] by (metis length_map)
  then have "length offs \<le> length args" using assms by (simp add: args_ok_def shell_consts)
  then have "fill_from 0 offs args = map Ptr offs @ drop (length offs) args" by (simp add: fill_from_eq)
  with p r show ?thesis by auto
qed

lemma args_ok_drop_low: "args_ok a \<Longrightarrow> j < 6 \<Longrightarrow> drop j a = Null # drop (Suc j) a"
proof -
  assume a: "args_ok a" "j < 6"
  then have "take 6 a ! j = Null" "j < length a" by (simp_all add: args_ok_def shell_consts)
  then have "a ! j = Null" "j < length a" using a(2) by simp_all
  then show ?thesis using Cons_nth_drop_Suc [of j a] by simp
qed

lemma args_ok_drop_high: "args_ok a \<Longrightarrow> 6 \<le> j \<Longrightarrow> Null \<notin> set (drop j a)"
  using set_drop_subset_set_drop [of 6 j a] by (auto simp: args_ok_def)

section \<open>Properties\<close>

text \<open>C2: ParseCommand implements the spec's tokenizer. On a command buffer holding a
  terminated string, with at least half as many argument slots as buffer bytes (100
  bytes and 50 slots in the shell), the strtok loop never writes past the slots; it
  stores the offsets of the tokens in the first slots, leaves the others as they
  were, and the strings at those offsets in the rewritten buffer are exactly the
  maximal runs of non-space characters of the command, in order.\<close>

theorem ParseCommand_tokens:
  assumes "length (cstr command) < length command" "length command \<le> 2 * length args"
  shows "\<exists>command' offs. ParseCommand command args = Inr (command', fill_from 0 offs args)
           \<and> length command' = length command \<and> map (cstr_at command') offs = tokens (cstr command)"
  using parse_result [OF assms] .

theorem ParseCommand_tokens_witness:
  "\<exists>command' offs. ParseCommand (''ls  -l'' @ replicate 94 NUL) arguments_init
      = Inr (command', fill_from 0 offs arguments_init)
    \<and> length command' = length (''ls  -l'' @ replicate 94 NUL)
    \<and> map (cstr_at command') offs = tokens (cstr (''ls  -l'' @ replicate 94 NUL))"
  by (rule ParseCommand_tokens) (simp_all add: cstr_at_def arguments_init_def shell_consts)

text \<open>C26: With the argument slots as main prepares them, a command of at most five
  tokens reaches execvp as exactly its token list: the first NULL slot after the
  tokens terminates the vector.\<close>

theorem ParseCommand_argv:
  assumes "args_ok args" "length command = COMMAND_SIZE" "length (cstr command) < COMMAND_SIZE"
    and "length (tokens (cstr command)) < 6"
  shows "\<exists>command' args'. ParseCommand command args = Inr (command', args')
           \<and> argv_of command' 0 args' = Inr (tokens (cstr command))"
proof -
  obtain command' offs where p: "ParseCommand command args = Inr (command', map Ptr offs @ drop (length offs) args)"
    and r: "map (cstr_at command') offs = tokens (cstr command)"
    using ParseCommand_slots [OF assms(1-3)] by blast
  have "length offs < 6" using r assms(4) by (metis length_map)
  then have "drop (length offs) args = Null # drop (Suc (length offs)) args"
    using args_ok_drop_low [OF assms(1)] by blast
  then have "argv_of command' 0 (map Ptr offs @ drop (length offs) args) = Inr (tokens (cstr command))"
    using r by (simp add: argv_of_map_Ptr)
  with p show ?thesis by blast
qed

theorem ParseCommand_argv_witness:
  "\<exists>command' args'. ParseCommand (''ls -l /tmp'' @ replicate 90 NUL) arguments_init = Inr (command', args')
      \<and> argv_of command' 0 args' = Inr (tokens (cstr (''ls -l /tmp'' @ replicate 90 NUL)))"
  by (rule ParseCommand_argv) (simp_all add: arguments_init_ok cstr_at_def tokens_def shell_consts)

text \<open>C27: A command of six tokens or more leaves execvp reading an argument slot that
  is neither a token nor NULL (slot 6 is only half cleared by the 49-byte memset, and
  slots 7 to 49 are never cleared), or running past the array: the argument vector
  is undefined.\<close>

theorem ParseCommand_argv_undefined:
  assumes "args_ok args" "length command = COMMAND_SIZE" "length (cstr command) < COMMAND_SIZE"
    and "6 \<le> length (tokens (cstr command))"
  shows "\<exists>command' args' e. ParseCommand command args = Inr (command', args') \<and> argv_of command' 0 args' = Inl e"
proof -
  obtain command' offs where p: "ParseCommand command args = Inr (command', map Ptr offs @ drop (length offs) args)"
    and r: "map (cstr_at command') offs = tokens (cstr command)"
    using ParseCommand_slots [OF assms(1-3)] by blast
  have "6 \<le> length offs" using r assms(4) by (metis length_map)
  then obtain e where "argv_of command' (length offs) (drop (length offs) args) = Inl e"
    using argv_of_no_null args_ok_drop_high [OF assms(1)] by blast
  then have "argv_of command' 0 (map Ptr offs @ drop (length offs) args) = Inl e"
    by (simp add: argv_of_map_Ptr)
  with p show ?thesis by blast
qed

theorem ParseCommand_argv_undefined_witness:
  "\<exists>command' args' e. ParseCommand (''a b c d e f'' @ replicate 89 NUL) arguments_init = Inr (command', args')
      \<and> argv_of command' 0 args' = Inl e"
  by (rule ParseCommand_argv_undefined) (simp_all add: arguments_init_ok cstr_at_def tokens_def shell_consts)

end
