(* ===== verification/Process.thy ===== *)
theory Process
  imports Tokenizer
begin

text \<open>
  The process launcher and the supervisor: \<open>ExecuteCommand\<close> (DougsShell.c lines
  164--169), run in the child after the fork of line 78, and \<open>MonitorChildProcess\<close>
  (lines 174--195), run in the parent. The termination status is the 32-bit
  \<open>int status\<close> that wait stores, read with the glibc macros \<open>WIFEXITED\<close> and
  \<open>WEXITSTATUS\<close>, which are modelled here as words with their bit masks. The answers
  wait gives are a list supplied by the kernel, one per call; the signal dispositions
  set at lines 51--59 are a record, with what fork and execve do to them (POSIX).
\<close>

unbundle bit_operations_syntax

section \<open>Termination status\<close>

text \<open>glibc's \<open><bits/waitstatus.h>\<close>: the low seven bits hold the terminating signal
  (zero for a normal exit), bits 8--15 the exit code. \<open>exit_status c\<close> is the word
  wait stores for a child that called \<open>exit(c)\<close>, \<open>signal_status n\<close> the word for a
  child killed by signal \<open>n\<close> without a core dump.\<close>

definition WIFEXITED :: "32 word \<Rightarrow> bool" where
  "WIFEXITED status \<longleftrightarrow> status AND 0x7f = 0"

definition WEXITSTATUS :: "32 word \<Rightarrow> 32 word" where
  "WEXITSTATUS status = drop_bit 8 status AND 0xff"

definition exit_status :: "int \<Rightarrow> 32 word" where
  "exit_status c = push_bit 8 (word_of_int c AND 0xff)"

definition signal_status :: "nat \<Rightarrow> 32 word" where
  "signal_status n = word_of_nat n"

section \<open>Signal dispositions\<close>

datatype disposition = SigDefault | SigIgnore | SigCatch

record sigdisp =
  sigint_disp :: disposition
  sigtstp_disp :: disposition

text \<open>Lines 51--59: \<open>sigaction(SIGINT, &ignore, NULL)\<close> and the same for SIGTSTP with
  \<open>ignore.sa_handler = SIG_IGN\<close>.\<close>

definition ignore_signals :: "sigdisp \<Rightarrow> sigdisp" where
  "ignore_signals d = d\<lparr>sigint_disp := SigIgnore, sigtstp_disp := SigIgnore\<rparr>"

text \<open>fork copies the dispositions; execve resets a caught signal to its default and
  keeps an ignored one ignored (POSIX, execve: ``signals set to be ignored remain
  ignored'').\<close>

primrec exec_disp :: "disposition \<Rightarrow> disposition" where
  "exec_disp SigDefault = SigDefault"
| "exec_disp SigIgnore = SigIgnore"
| "exec_disp SigCatch = SigDefault"

definition exec_signals :: "sigdisp \<Rightarrow> sigdisp" where
  "exec_signals d = \<lparr>sigint_disp = exec_disp (sigint_disp d), sigtstp_disp = exec_disp (sigtstp_disp d)\<rparr>"

section \<open>ExecuteCommand\<close>

text \<open>\<open>execvp(args[0], args)\<close> in the child: \<open>args[0]\<close> is the file to run and the
  slots up to the first NULL are its argument vector. An undefined vector, or a NULL
  file name (a command without tokens), is undefined behaviour. Otherwise \<open>found\<close>
  says whether the PATH search of execvp finds an executable for the file name; if
  it does, the image is replaced, else execvp returns and the child prints the
  message and calls \<open>exit(1)\<close>.\<close>

definition EXEC_FAILED_MSG :: string where
  "EXEC_FAILED_MSG = ''command failed to execute'' @ [NL]"

definition ExecuteCommand :: "(string \<Rightarrow> bool) \<Rightarrow> buffer \<Rightarrow> nat ptr list \<Rightarrow> child_run" where
  "ExecuteCommand found buf args =
     (case argv_of buf 0 args of
        Inl e \<Rightarrow> ChildUndefined e
      | Inr [] \<Rightarrow> ChildUndefined ExecNullFile
      | Inr (file # rest) \<Rightarrow>
          (if found file then ChildExec (file # rest) else ChildExecFailed (file # rest)))"

section \<open>MonitorChildProcess\<close>

text \<open>Lines 191--194: the message is printed when \<open>WIFEXITED(status) == 0\<close>.\<close>

definition report :: "32 word \<Rightarrow> event list" where
  "report status =
     (if \<not> WIFEXITED status
      then [Out (''child process exited with value '' @ dec_string (uint (WEXITSTATUS status)) @ [NL])]
      else [])"

text \<open>Lines 178--189. Each answer of wait is the pid it returns and the status it
  stores; for \<open>-1\<close> the status is not stored and not read. The loop continues while
  the pid is non-zero: it stops at the child's pid, returns after the perror on
  \<open>-1\<close>, and waits again for any other pid. wait never returns 0, but the code's loop
  condition is kept. When the kernel has no further answer the shell blocks for
  ever: the value \<open>None\<close>.\<close>

fun MonitorChildProcess :: "int \<Rightarrow> (int \<times> 32 word) list \<Rightarrow> (event list \<times> (int \<times> 32 word) list) option" where
  "MonitorChildProcess child_pid [] = None"
| "MonitorChildProcess child_pid ((received_pid, status) # ws) =
     (if received_pid \<noteq> 0 then
        (if received_pid = child_pid then Some (report status, ws)
         else if received_pid = -1 then
           Some ([Perror ''error while waiting for child process to execute command''], ws)
         else MonitorChildProcess child_pid ws)
      else Some (report status, ws))"

section \<open>Lemmas\<close>

lemma status_masks: "(0xff :: 32 word) = mask 8" "(0x7f :: 32 word) = mask 7"
  by (simp_all add: mask_eq_exp_minus_1)

lemma WIFEXITED_exit_status: "WIFEXITED (exit_status c)"
  unfolding WIFEXITED_def exit_status_def status_masks
  by (rule bit_word_eqI) (auto simp: bit_simps)

lemma WEXITSTATUS_exit_status: "WEXITSTATUS (exit_status c) = word_of_int c AND 0xff"
  unfolding WEXITSTATUS_def exit_status_def status_masks
  by (rule bit_word_eqI) (auto simp: bit_simps)

lemma signal_status_low: "n < 128 \<Longrightarrow> signal_status n AND 0x7f = signal_status n"
proof -
  assume "n < 128"
  then have "take_bit 7 n = n" by (simp add: take_bit_nat_eq_self_iff)
  then show ?thesis unfolding signal_status_def status_masks
    by (metis take_bit_eq_mask of_nat_take_bit)
qed

lemma signal_status_nonzero: "0 < n \<Longrightarrow> n < 128 \<Longrightarrow> signal_status n \<noteq> 0"
proof
  assume "0 < n" "n < 128" "signal_status n = 0"
  then have "unat (signal_status n) = 0" by simp
  moreover have "unat (signal_status n) = n" using \<open>n < 128\<close> unfolding signal_status_def
    by (simp add: unat_of_nat)
  ultimately show False using \<open>0 < n\<close> by simp
qed

lemma signal_status_high: "n < 256 \<Longrightarrow> drop_bit 8 (signal_status n) = 0"
proof (rule bit_word_eqI)
  fix k
  assume n: "n < 256"
  have "(256::nat) \<le> 2 ^ (8 + k)" by (simp add: power_add)
  then have "n div 2 ^ (8 + k) = 0" using n by simp
  then have "\<not> bit n (8 + k)" by (simp add: bit_iff_odd)
  then show "bit (drop_bit 8 (signal_status n)) k = bit 0 k"
    by (simp add: bit_simps signal_status_def)
qed

lemma report_signal_status:
  "0 < n \<Longrightarrow> n < 127 \<Longrightarrow> report (signal_status n) = [Out (''child process exited with value 0'' @ [NL])]"
proof -
  assume n: "0 < n" "n < 127"
  then have "\<not> WIFEXITED (signal_status n)"
    using signal_status_low [of n] signal_status_nonzero [of n] by (simp add: WIFEXITED_def)
  moreover have "WEXITSTATUS (signal_status n) = 0"
    using n signal_status_high [of n] by (simp add: WEXITSTATUS_def)
  ultimately show ?thesis by (simp add: report_def dec_string_def nat_digits.simps digit_char_def)
qed

lemma exec_ignore_signals:
  "sigint_disp (exec_signals (ignore_signals d)) = SigIgnore
   \<and> sigtstp_disp (exec_signals (ignore_signals d)) = SigIgnore"
  by (simp add: exec_signals_def ignore_signals_def)

section \<open>Properties\<close>

text \<open>C6: The supervisor waits for its own child: answers of wait for other children
  (neither the child's pid, nor 0, nor -1) are skipped, and the first answer for the
  child ends the loop with the report of that child's status; later answers are left
  to later calls.\<close>

theorem MonitorChildProcess_waits:
  assumes "list_all (\<lambda>(p, _). p \<noteq> child_pid \<and> p \<noteq> 0 \<and> p \<noteq> -1) others"
  shows "MonitorChildProcess child_pid (others @ (child_pid, status) # rest) = Some (report status, rest)"
  using assms by (induction others) auto

theorem MonitorChildProcess_waits_witness:
  "MonitorChildProcess 42 ([(7, exit_status 0), (8, signal_status 9)] @ (42, exit_status 3) # [])
     = Some (report (exit_status 3), [])"
  by (rule MonitorChildProcess_waits) simp

text \<open>C20: The wait loop ends as soon as the kernel reports the child: if the answers
  of wait contain the child's pid, MonitorChildProcess returns.\<close>

theorem MonitorChildProcess_returns:
  assumes "(child_pid, st) \<in> set ws"
  shows "\<exists>r. MonitorChildProcess child_pid ws = Some r"
  using assms by (induction child_pid ws rule: MonitorChildProcess.induct) auto

theorem MonitorChildProcess_returns_witness:
  "\<exists>r. MonitorChildProcess 42 [(7, exit_status 0), (42, exit_status 3)] = Some r"
  by (rule MonitorChildProcess_returns [where st = "exit_status 3"]) simp

text \<open>C30: A child that exits normally is never reported, whatever its exit code:
  the status of \<open>exit(c)\<close> has WIFEXITED set, and the code prints only when it is
  clear. A failed command (\<open>exit(1)\<close>) passes silently.\<close>

theorem report_exit_silent: "report (exit_status c) = []"
  by (simp add: report_def WIFEXITED_exit_status)

text \<open>C31: A child killed by a signal is reported as having ``exited with value 0'':
  WIFEXITED is clear, and WEXITSTATUS of a signal status is 0.\<close>

theorem report_signal:
  assumes "0 < n" "n < 127"
  shows "report (signal_status n) = [Out (''child process exited with value 0'' @ [NL])]"
  using report_signal_status [OF assms] .

theorem report_signal_witness:
  "report (signal_status 9) = [Out (''child process exited with value 0'' @ [NL])]"
  by (rule report_signal) simp_all

end
