(* ===== verification/Shell.thy ===== *)
theory Shell
  imports Recall Input Process
begin

text \<open>
  The shell loop: \<open>main\<close> of DougsShell.c (lines 36--118) with
  \<open>CheckForContinue\<close> (lines 199--211). The state record \<open>shell\<close> holds main's
  locals (\<open>history\<close>, \<open>history_size\<close>, \<open>command\<close>, \<open>arguments\<close>), the unread
  standard input, the number of forks so far and everything shown so far. The
  record \<open>world\<close> is what the shell does not control: whether execvp finds a program,
  the status a program or an undefined child ends with (None: it never ends), and
  whether the n-th fork succeeds. One iteration of the while loop is \<open>step\<close>; the
  reads before the loop and at its end are \<open>read_command\<close>; \<open>run\<close> iterates with
  fuel and \<open>reachable\<close> is the set of loop-head states. The invariant \<open>shell_inv\<close>
  holds at every reachable state (rule induction), the parent's only undefined
  behaviour is the history read of a zero recall, at the end of the input the
  loop never ends, and on simple lines followed by \<^verbatim>\<open>exit\<close> main exits with 0
  holding the spec's history of those lines.
\<close>

section \<open>The world outside the shell\<close>

text \<open>\<open>found\<close>: execvp's PATH search succeeds for the file name; \<open>run_status\<close>: the
  status wait reports for a program run with this argument vector; \<open>ub_status\<close>:
  the status of a child that reached undefined behaviour; \<open>fork_result n\<close>: the
  child pid minus one of the n-th fork, None when fork fails; \<open>inherited\<close>: the
  signal dispositions the shell process starts with.\<close>

record world =
  found :: "string \<Rightarrow> bool"
  run_status :: "string list \<Rightarrow> 32 word option"
  ub_status :: "ub \<Rightarrow> 32 word option"
  fork_result :: "nat \<Rightarrow> nat option"
  inherited :: sigdisp

section \<open>The state of main\<close>

record shell =
  history :: hist_array
  history_size :: nat
  command :: buffer
  arguments :: "nat ptr list"
  stdin :: string
  forks :: nat
  shown :: "event list"
  signals :: sigdisp

text \<open>What one iteration ends in: the next loop head, a call of \<open>exit\<close> (line 87 or
  116), undefined behaviour in the shell process, or a wait that never returns.\<close>

datatype outcome = Continue shell | Exit int shell | Stuck ub | Blocked shell

definition emit :: "event list \<Rightarrow> shell \<Rightarrow> shell" where
  "emit evs s = s\<lparr>shown := shown s @ evs\<rparr>"

section \<open>Reading a command (lines 61--69 and 100--109)\<close>

text \<open>The recall test and GetEcho (lines 62--65, 102--105).\<close>

definition recall_step :: "shell \<Rightarrow> ub + shell" where
  "recall_step s =
     (if is_recall (command s) then
        (case GetEcho (history s) (command s) (history_size s) of
           Inl e \<Rightarrow> Inl e
         | Inr (c, evs) \<Rightarrow> Inr (emit evs (s\<lparr>command := c\<rparr>)))
      else Inr s)"

text \<open>Lines 66--69 and 106--109: record every line that does not start with a
  newline or \<open>!\<close>.\<close>

definition record_step :: "shell \<Rightarrow> ub + shell" where
  "record_step s =
     (if command s ! 0 \<noteq> NL \<and> command s ! 0 \<noteq> BANG then
        (case AddToHistory (history s) (cstr (command s)) (history_size s) of
           Inl e \<Rightarrow> Inl e
         | Inr (h, n) \<Rightarrow> Inr (s\<lparr>history := h, history_size := n\<rparr>))
      else Inr s)"

definition read_command :: "shell \<Rightarrow> ub + shell" where
  "read_command s =
     (case GetCommand (command s) (stdin s) of
        (c, rest, evs) \<Rightarrow>
          (case recall_step (emit evs (s\<lparr>command := c, stdin := rest\<rparr>)) of
             Inl e \<Rightarrow> Inl e
           | Inr s' \<Rightarrow> record_step s'))"

section \<open>The loop (lines 72--114)\<close>

definition CheckForContinue :: "buffer \<Rightarrow> bool" where
  "CheckForContinue line \<longleftrightarrow> \<not> (cstr line = ''exit'' \<or> cstr line = ''logout'')"

definition loop_cond :: "shell \<Rightarrow> bool" where
  "loop_cond s \<longleftrightarrow> CheckForContinue (command s) \<or> command s ! 0 = NL"

text \<open>The child forked at line 78: its termination status, what it prints itself,
  and the answers wait gets in the parent (the shell has one child at a time).\<close>

definition child_status :: "world \<Rightarrow> child_run \<Rightarrow> 32 word option" where
  "child_status w cr =
     (case cr of
        ChildExec argv \<Rightarrow> run_status w argv
      | ChildExecFailed _ \<Rightarrow> Some (exit_status 1)
      | ChildUndefined e \<Rightarrow> ub_status w e)"

definition child_output :: "child_run \<Rightarrow> event list" where
  "child_output cr = (case cr of ChildExecFailed _ \<Rightarrow> [Out EXEC_FAILED_MSG] | _ \<Rightarrow> [])"

definition wait_answers :: "world \<Rightarrow> int \<Rightarrow> child_run \<Rightarrow> (int \<times> 32 word) list" where
  "wait_answers w pid cr = (case child_status w cr of None \<Rightarrow> [] | Some st \<Rightarrow> [(pid, st)])"

definition FORK_FAILED_MSG :: string where
  "FORK_FAILED_MSG = ''Error: command cannot be executed due to failed fork command'' @ [NL]"

text \<open>Lines 75--92: tokenise, fork, run ExecuteCommand in the child, and wait in the
  parent; on a failed fork, perror and \<open>exit(1)\<close>.\<close>

definition dispatch :: "world \<Rightarrow> shell \<Rightarrow> outcome" where
  "dispatch w s =
     (if command s ! 0 \<noteq> NL \<and> cstr (command s) \<noteq> ''history'' then
        (case ParseCommand (command s) (arguments s) of
           Inl e \<Rightarrow> Stuck e
         | Inr (c, args) \<Rightarrow>
             (let s1 = s\<lparr>command := c, arguments := args, forks := Suc (forks s)\<rparr> in
              case fork_result w (forks s) of
                None \<Rightarrow> Exit 1 (emit [Perror FORK_FAILED_MSG] s1)
              | Some p \<Rightarrow>
                  (let child_pid = int (Suc p); cr = ExecuteCommand (found w) c args in
                   case MonitorChildProcess child_pid (wait_answers w child_pid cr) of
                     None \<Rightarrow> Blocked (emit (Spawn cr # child_output cr) s1)
                   | Some (evs, _) \<Rightarrow> Continue (emit (Spawn cr # child_output cr @ evs) s1))))
      else Continue s)"

text \<open>Lines 93--97, on the command as ParseCommand left it.\<close>

definition history_step :: "shell \<Rightarrow> ub + shell" where
  "history_step s =
     (if cstr (command s) = ''history'' then
        (case PrintHistory (history s) (history_size s) of
           Inl e \<Rightarrow> Inl e
         | Inr evs \<Rightarrow> Inr (emit evs s))
      else Inr s)"

text \<open>One iteration: the loop test, the body, the next read and the memset of line
  112; a false test is \<open>exit(0)\<close>.\<close>

definition step :: "world \<Rightarrow> shell \<Rightarrow> outcome" where
  "step w s =
     (if loop_cond s then
        (case dispatch w s of
           Continue s1 \<Rightarrow>
             (case history_step s1 of
                Inl e \<Rightarrow> Stuck e
              | Inr s2 \<Rightarrow>
                  (case read_command s2 of
                     Inl e \<Rightarrow> Stuck e
                   | Inr s3 \<Rightarrow> Continue (s3\<lparr>arguments := memset_ptrs (ARGUMENT_SIZE - 1) (arguments s3)\<rparr>)))
         | r \<Rightarrow> r)
      else Exit 0 s)"

section \<open>main\<close>

text \<open>Lines 39--59: the state before the first read. \<open>command0\<close> is the
  uninitialised buffer, of which the memset clears 99 bytes; the sigaction calls
  set SIGINT and SIGTSTP to be ignored.\<close>

definition shell_init :: "world \<Rightarrow> buffer \<Rightarrow> string \<Rightarrow> shell" where
  "shell_init w command0 inp =
     \<lparr>history = history_init, history_size = 0, command = memset_nul (COMMAND_SIZE - 1) command0,
      arguments = arguments_init, stdin = inp, forks = 0, shown = [],
      signals = ignore_signals (inherited w)\<rparr>"

definition main_start :: "world \<Rightarrow> buffer \<Rightarrow> string \<Rightarrow> ub + shell" where
  "main_start w command0 inp = read_command (shell_init w command0 inp)"

text \<open>The loop run for at most \<open>n\<close> iterations: \<open>Continue\<close> when the fuel runs out.\<close>

fun run :: "world \<Rightarrow> nat \<Rightarrow> shell \<Rightarrow> outcome" where
  "run w 0 s = Continue s"
| "run w (Suc n) s = (case step w s of Continue s' \<Rightarrow> run w n s' | r \<Rightarrow> r)"

section \<open>Invariant and reachable states\<close>

text \<open>The loop-head invariant: the history is well formed, the command buffer holds
  a terminated string, and the argument slots are as ParseCommand expects them.\<close>

definition shell_inv :: "shell \<Rightarrow> bool" where
  "shell_inv s \<longleftrightarrow> hist_inv (history s) (history_size s) \<and> cmd_ok (command s) \<and> args_ok (arguments s)"

text \<open>The states at the loop head (line 72) of a run on some input.\<close>

inductive reachable :: "world \<Rightarrow> shell \<Rightarrow> bool" for w where
  start: "length command0 = COMMAND_SIZE \<Longrightarrow> main_start w command0 inp = Inr s \<Longrightarrow> reachable w s"
| iter: "reachable w s \<Longrightarrow> step w s = Continue s' \<Longrightarrow> reachable w s'"

text \<open>The whole program on an input, for at most \<open>n\<close> iterations of the loop.\<close>

definition session :: "world \<Rightarrow> buffer \<Rightarrow> string \<Rightarrow> nat \<Rightarrow> ub + outcome" where
  "session w command0 inp n = (case main_start w command0 inp of Inl e \<Rightarrow> Inl e | Inr s \<Rightarrow> Inr (run w n s))"

text \<open>A world for the witnesses: \<^verbatim>\<open>ls\<close> and \<^verbatim>\<open>pwd\<close> exist and exit with 0,
  forks succeed, an undefined child dies of SIGSEGV, and the shell starts with the
  default dispositions.\<close>

definition demo_world :: world where
  "demo_world = \<lparr>found = (\<lambda>f. f = ''ls'' \<or> f = ''pwd''), run_status = (\<lambda>_. Some (exit_status 0)),
                  ub_status = (\<lambda>_. Some (signal_status 11)), fork_result = Some,
                  inherited = \<lparr>sigint_disp = SigDefault, sigtstp_disp = SigDefault\<rparr>\<rparr>"

text \<open>A line the loop reads as a command of its own and runs without a history recall:
  no newline or NUL inside, short enough for one fgets, and not starting with \<open>!\<close>.\<close>

definition simple_line :: "string \<Rightarrow> bool" where
  "simple_line l \<longleftrightarrow> NL \<notin> set l \<and> NUL \<notin> set l \<and> length l < COMMAND_SIZE - 1 \<and> (l = [] \<or> hd l \<noteq> BANG)"

section \<open>Lemmas\<close>

lemma echo_value_nonneg: "is_recall c \<Longrightarrow> 0 \<le> echo_value c"
  by (simp add: echo_value_recall_aux digit_value_def is_digit_def)

lemma GetEcho_Inl_recall:
  assumes "hist_inv h n" "length cm = COMMAND_SIZE" "is_recall cm" "GetEcho h cm n = Inl e"
  shows "e = HistorySlotUnset n \<or> e = HistoryIndexOutOfRange (int n)"
proof -
  have v0: "echo_value cm = 0"
  proof (rule ccontr)
    assume "echo_value cm \<noteq> 0"
    then have "1 \<le> echo_value cm" using echo_value_nonneg [OF assms(3)] by simp
    then show False
      using assms(4) GetEcho_resolves_aux [OF assms(1,2)] GetEcho_out_of_range_aux [of n cm h]
      by (cases "echo_value cm \<le> int n") auto
  qed
  show ?thesis
  proof (cases "n < length h")
    case True
    then have "\<not> is_ptr (h ! n)" using hist_inv_unset [OF assms(1)] by simp
    then show ?thesis using assms(4) v0 True by (cases "h ! n") (auto simp: GetEcho_def)
  next
    case False
    then show ?thesis using assms(4) v0 by (auto simp: GetEcho_def)
  qed
qed

lemma cmd_ok_strcpy:
  "cmd_ok c \<Longrightarrow> line_ok l \<Longrightarrow> length l < length c \<Longrightarrow> cmd_ok (strcpy_buf c l)"
  by (simp add: cmd_ok_def line_ok_def length_strcpy_buf)

lemma recall_step_Inr:
  assumes "hist_inv (history s) (history_size s)" "cmd_ok (command s)" "recall_step s = Inr s'"
  shows "\<exists>c evs. s' = emit evs (s\<lparr>command := c\<rparr>) \<and> cmd_ok c"
proof (cases "is_recall (command s)")
  case True
  then obtain c evs where g: "GetEcho (history s) (command s) (history_size s) = Inr (c, evs)"
    and s': "s' = emit evs (s\<lparr>command := c\<rparr>)"
    using assms(3) by (auto simp: recall_step_def split: sum.splits)
  have "cmd_ok c" using GetEcho_Inr_cases [OF assms(1) g] assms(2) cmd_ok_strcpy by auto
  with s' show ?thesis by blast
next
  case False
  then have "s' = emit [] (s\<lparr>command := command s\<rparr>)" using assms(3) by (simp add: recall_step_def emit_def)
  with assms(2) show ?thesis by blast
qed

lemma recall_step_Inl:
  assumes "hist_inv (history s) (history_size s)" "cmd_ok (command s)" "recall_step s = Inl e"
  shows "e = HistorySlotUnset (history_size s) \<or> e = HistoryIndexOutOfRange (int (history_size s))"
proof -
  have r: "is_recall (command s)" and g: "GetEcho (history s) (command s) (history_size s) = Inl e"
    using assms(3) by (auto simp: recall_step_def split: if_splits sum.splits prod.splits)
  show ?thesis using GetEcho_Inl_recall [OF assms(1) _ r g] assms(2) by (simp add: cmd_ok_def)
qed

lemma line_ok_cstr: "cmd_ok c \<Longrightarrow> line_ok (cstr c)"
  by (simp add: cmd_ok_def line_ok_def cstr_at_no_nul)

lemma record_step_Inr:
  assumes "hist_inv (history s) (history_size s)" "cmd_ok (command s)"
  shows "\<exists>h n. record_step s = Inr (s\<lparr>history := h, history_size := n\<rparr>) \<and> hist_inv h n"
proof (cases "command s ! 0 \<noteq> NL \<and> command s ! 0 \<noteq> BANG")
  case True
  obtain h n where a: "AddToHistory (history s) (cstr (command s)) (history_size s) = Inr (h, n)" "hist_inv h n"
    using AddToHistory_inv [OF assms(1) line_ok_cstr [OF assms(2)]] by blast
  then have "record_step s = Inr (s\<lparr>history := h, history_size := n\<rparr>)"
    using True by (simp add: record_step_def)
  with a(2) show ?thesis by blast
next
  case False
  then have "record_step s = Inr (s\<lparr>history := history s, history_size := history_size s\<rparr>)"
    unfolding record_step_def by auto
  with assms(1) show ?thesis by blast
qed

lemma read_command_Inr:
  assumes "hist_inv (history s) (history_size s)" "length (command s) = COMMAND_SIZE" "read_command s = Inr s'"
  shows "hist_inv (history s') (history_size s') \<and> cmd_ok (command s') \<and> arguments s' = arguments s
         \<and> forks s' = forks s"
proof -
  obtain c rest evs where gc: "GetCommand (command s) (stdin s) = (c, rest, evs)" by (cases "GetCommand (command s) (stdin s)") auto
  have c: "cmd_ok c" using GetCommand_buffer [OF assms(2) gc] by simp
  let ?s1 = "emit evs (s\<lparr>command := c, stdin := rest\<rparr>)"
  obtain s2 where r: "recall_step ?s1 = Inr s2" and rec: "record_step s2 = Inr s'"
    using assms(3) gc by (auto simp: read_command_def split: sum.splits)
  obtain c2 evs2 where s2: "s2 = emit evs2 (?s1\<lparr>command := c2\<rparr>)" and c2: "cmd_ok c2"
    using recall_step_Inr [of ?s1 s2] assms(1) c r by (auto simp: emit_def)
  obtain h n where "record_step s2 = Inr (s2\<lparr>history := h, history_size := n\<rparr>)" "hist_inv h n"
    using record_step_Inr [of s2] s2 c2 assms(1) by (auto simp: emit_def)
  with rec s2 c2 show ?thesis by (auto simp: emit_def)
qed

lemma read_command_Inl:
  assumes "hist_inv (history s) (history_size s)" "length (command s) = COMMAND_SIZE" "read_command s = Inl e"
  shows "e = HistorySlotUnset (history_size s) \<or> e = HistoryIndexOutOfRange (int (history_size s))"
proof -
  obtain c rest evs where gc: "GetCommand (command s) (stdin s) = (c, rest, evs)" by (cases "GetCommand (command s) (stdin s)") auto
  have c: "cmd_ok c" using GetCommand_buffer [OF assms(2) gc] by simp
  let ?s1 = "emit evs (s\<lparr>command := c, stdin := rest\<rparr>)"
  show ?thesis
  proof (cases "recall_step ?s1")
    case (Inl e')
    then have "e' = e" using assms(3) gc by (simp add: read_command_def)
    with recall_step_Inl [of ?s1 e'] Inl assms(1) c show ?thesis by (simp add: emit_def)
  next
    case (Inr s2)
    obtain c2 evs2 where s2: "s2 = emit evs2 (?s1\<lparr>command := c2\<rparr>)" and c2: "cmd_ok c2"
      using recall_step_Inr [of ?s1 s2] assms(1) c Inr by (auto simp: emit_def)
    obtain h n where "record_step s2 = Inr (s2\<lparr>history := h, history_size := n\<rparr>)"
      using record_step_Inr [of s2] s2 c2 assms(1) by (auto simp: emit_def)
    then show ?thesis using assms(3) gc Inr by (simp add: read_command_def)
  qed
qed


lemma read_command_last:
  assumes "hist_inv (history s) (history_size s)" "length (command s) = COMMAND_SIZE" "read_command s = Inr s'"
    and "command s' ! 0 \<noteq> NL" "command s' ! 0 \<noteq> BANG"
  shows "hist_list (history s') (history_size s') \<noteq> []
         \<and> last (hist_list (history s') (history_size s')) = cstr (command s')"
proof -
  obtain c rest evs where gc: "GetCommand (command s) (stdin s) = (c, rest, evs)" by (cases "GetCommand (command s) (stdin s)") auto
  have c: "cmd_ok c" using GetCommand_buffer [OF assms(2) gc] by simp
  let ?s1 = "emit evs (s\<lparr>command := c, stdin := rest\<rparr>)"
  obtain s2 where r: "recall_step ?s1 = Inr s2" and rec: "record_step s2 = Inr s'"
    using assms(3) gc by (auto simp: read_command_def split: sum.splits)
  obtain c2 evs2 where s2: "s2 = emit evs2 (?s1\<lparr>command := c2\<rparr>)" and c2: "cmd_ok c2"
    using recall_step_Inr [of ?s1 s2] assms(1) c r by (auto simp: emit_def)
  have h2: "hist_inv (history s2) (history_size s2)" and c2': "cmd_ok (command s2)"
    using s2 assms(1) c2 by (simp_all add: emit_def)
  have cm: "command s' = command s2"
    using rec by (auto simp: record_step_def split: if_splits sum.splits prod.splits)
  obtain h n where a: "AddToHistory (history s2) (cstr (command s2)) (history_size s2) = Inr (h, n)"
    and hl: "hist_list h n = ring_record (hist_list (history s2) (history_size s2)) (cstr (command s2))"
    using AddToHistory_inv [OF h2 line_ok_cstr [OF c2']] by blast
  have "s' = s2\<lparr>history := h, history_size := n\<rparr>"
    using rec a assms(4,5) cm by (simp add: record_step_def)
  then show ?thesis using hl ring_record_last cm by simp
qed

lemma parse_in_shell:
  assumes "shell_inv s"
  shows "\<exists>c offs. ParseCommand (command s) (arguments s) = Inr (c, fill_from 0 offs (arguments s))
           \<and> length c = COMMAND_SIZE \<and> length offs \<le> ARGUMENT_SIZE"
proof -
  have cm: "length (command s) = COMMAND_SIZE" "length (cstr (command s)) < COMMAND_SIZE"
    and a: "length (arguments s) = ARGUMENT_SIZE"
    using assms by (simp_all add: shell_inv_def cmd_ok_def args_ok_def)
  then obtain c offs where p: "ParseCommand (command s) (arguments s) = Inr (c, fill_from 0 offs (arguments s))"
    and l: "length c = length (command s)" and r: "map (cstr_at c) offs = tokens (cstr (command s))"
    using parse_result [of "command s" "arguments s"] by (auto simp: shell_consts)
  have "length offs \<le> (length (cstr (command s)) + 1) div 2"
    using r tokens_count [of "cstr (command s)"] by (metis length_map)
  then have "length offs \<le> ARGUMENT_SIZE" using cm by (simp add: shell_consts)
  with p l cm show ?thesis by auto
qed

lemma dispatch_Continue:
  assumes "shell_inv s" "dispatch w s = Continue s'"
  shows "history s' = history s \<and> history_size s' = history_size s \<and> length (command s') = COMMAND_SIZE
         \<and> (\<exists>ps. length ps \<le> ARGUMENT_SIZE \<and> arguments s' = fill_from 0 ps (arguments s))"
proof (cases "command s ! 0 \<noteq> NL \<and> cstr (command s) \<noteq> ''history''")
  case True
  obtain c offs where p: "ParseCommand (command s) (arguments s) = Inr (c, fill_from 0 offs (arguments s))"
    and l: "length c = COMMAND_SIZE" "length offs \<le> ARGUMENT_SIZE"
    using parse_in_shell [OF assms(1)] by blast
  obtain p' evs ws where fk: "fork_result w (forks s) = Some p'"
    and mc: "MonitorChildProcess (int (Suc p')) (wait_answers w (int (Suc p'))
               (ExecuteCommand (found w) c (fill_from 0 offs (arguments s)))) = Some (evs, ws)"
    using assms(2) True p
    by (auto simp: dispatch_def Let_def split: option.splits prod.splits)
  then have "s' = emit (Spawn (ExecuteCommand (found w) c (fill_from 0 offs (arguments s)))
                        # child_output (ExecuteCommand (found w) c (fill_from 0 offs (arguments s))) @ evs)
                   (s\<lparr>command := c, arguments := fill_from 0 offs (arguments s), forks := Suc (forks s)\<rparr>)"
    using assms(2) True p by (simp add: dispatch_def Let_def)
  with l show ?thesis by (auto simp: emit_def)
next
  case False
  then have "s' = s" using assms(2) by (auto simp: dispatch_def)
  moreover have "length (command s) = COMMAND_SIZE" using assms(1) by (simp add: shell_inv_def cmd_ok_def)
  moreover have "length ([] :: nat list) \<le> ARGUMENT_SIZE \<and> arguments s = fill_from 0 [] (arguments s)" by simp
  ultimately show ?thesis by blast
qed

lemma dispatch_not_stuck: "shell_inv s \<Longrightarrow> dispatch w s \<noteq> Stuck e"
  using parse_in_shell [of s]
  by (auto simp: dispatch_def Let_def split: option.splits prod.splits)

lemma history_step_Inr:
  assumes "hist_inv (history s) (history_size s)"
  shows "\<exists>evs. history_step s = Inr (emit evs s)"
proof -
  have "history_size s \<le> length (history s)" "list_all is_ptr (take (history_size s) (history s))"
    using assms by (simp_all add: hist_inv_def hist_wf_def)
  then have "PrintHistory (history s) (history_size s)
               = Inr (ring_listing 1 (map slot_contents (take (history_size s) (history s))))"
    by (simp add: PrintHistory_def print_entries_all_ptr)
  then have "history_step s = Inr (emit (if cstr (command s) = ''history''
               then ring_listing 1 (map slot_contents (take (history_size s) (history s))) else []) s)"
    by (simp add: history_step_def emit_def)
  then show ?thesis by blast
qed

lemma step_Continue_read:
  assumes "shell_inv s" "step w s = Continue s'"
  shows "\<exists>s2 s3 ps. read_command s2 = Inr s3
           \<and> s' = s3\<lparr>arguments := memset_ptrs (ARGUMENT_SIZE - 1) (arguments s3)\<rparr>
           \<and> hist_inv (history s2) (history_size s2) \<and> length (command s2) = COMMAND_SIZE
           \<and> length ps \<le> ARGUMENT_SIZE \<and> arguments s2 = fill_from 0 ps (arguments s)"
proof -
  have lc: "loop_cond s"
  proof (rule ccontr)
    assume "\<not> loop_cond s"
    then show False using assms(2) by (simp add: step_def)
  qed
  obtain s1 where d: "dispatch w s = Continue s1"
    using assms(2) lc by (cases "dispatch w s") (auto simp: step_def)
  note d1 = dispatch_Continue [OF assms(1) d]
  obtain ps where ps: "length ps \<le> ARGUMENT_SIZE" "arguments s1 = fill_from 0 ps (arguments s)"
    using d1 by blast
  have h1: "hist_inv (history s1) (history_size s1)" using d1 assms(1) by (simp add: shell_inv_def)
  obtain evs where hs: "history_step s1 = Inr (emit evs s1)" using history_step_Inr [OF h1] by blast
  obtain s3 where rc: "read_command (emit evs s1) = Inr s3"
    and s': "s' = s3\<lparr>arguments := memset_ptrs (ARGUMENT_SIZE - 1) (arguments s3)\<rparr>"
    using assms(2) lc d hs by (auto simp: step_def split: sum.splits)
  have "hist_inv (history (emit evs s1)) (history_size (emit evs s1))
        \<and> length (command (emit evs s1)) = COMMAND_SIZE \<and> arguments (emit evs s1) = fill_from 0 ps (arguments s)"
    using h1 d1 ps(2) by (simp add: emit_def)
  with rc s' ps(1) show ?thesis by blast
qed

lemma step_Continue:
  assumes "shell_inv s" "step w s = Continue s'"
  shows "shell_inv s'"
proof -
  obtain s2 s3 ps where rc: "read_command s2 = Inr s3"
    and s': "s' = s3\<lparr>arguments := memset_ptrs (ARGUMENT_SIZE - 1) (arguments s3)\<rparr>"
    and h2: "hist_inv (history s2) (history_size s2)" and l2: "length (command s2) = COMMAND_SIZE"
    and ps: "length ps \<le> ARGUMENT_SIZE" "arguments s2 = fill_from 0 ps (arguments s)"
    using step_Continue_read [OF assms] by blast
  have "hist_inv (history s3) (history_size s3) \<and> cmd_ok (command s3) \<and> arguments s3 = arguments s2"
    using read_command_Inr [OF h2 l2 rc] by simp
  moreover have "args_ok (memset_ptrs (ARGUMENT_SIZE - 1) (fill_from 0 ps (arguments s)))"
    using args_ok_refill [OF _ ps(1)] assms(1) by (simp add: shell_inv_def)
  ultimately show ?thesis using s' ps(2) by (simp add: shell_inv_def)
qed

lemma step_Stuck:
  assumes "shell_inv s" "step w s = Stuck e"
  shows "e = HistorySlotUnset (history_size s) \<or> e = HistoryIndexOutOfRange (int (history_size s))"
proof -
  have lc: "loop_cond s"
  proof (rule ccontr)
    assume "\<not> loop_cond s"
    then show False using assms(2) by (simp add: step_def)
  qed
  obtain s1 where d: "dispatch w s = Continue s1"
    using assms(2) lc dispatch_not_stuck [OF assms(1)] by (cases "dispatch w s") (auto simp: step_def)
  note d1 = dispatch_Continue [OF assms(1) d]
  have h1: "hist_inv (history s1) (history_size s1)" using d1 assms(1) by (simp add: shell_inv_def)
  obtain evs where hs: "history_step s1 = Inr (emit evs s1)" using history_step_Inr [OF h1] by blast
  have rc: "read_command (emit evs s1) = Inl e"
    using assms(2) lc d hs by (auto simp: step_def split: sum.splits)
  show ?thesis using read_command_Inl [OF _ _ rc] h1 d1 by (simp add: emit_def)
qed

lemma shell_init_inv:
  assumes "length command0 = COMMAND_SIZE"
  shows "hist_inv (history (shell_init w command0 inp)) (history_size (shell_init w command0 inp))
         \<and> length (command (shell_init w command0 inp)) = COMMAND_SIZE
         \<and> args_ok (arguments (shell_init w command0 inp))"
  using assms history_init_inv arguments_init_ok by (simp add: shell_init_def)

lemma main_start_Inr:
  "length command0 = COMMAND_SIZE \<Longrightarrow> main_start w command0 inp = Inr s \<Longrightarrow> shell_inv s"
  using shell_init_inv [of command0 w inp] read_command_Inr [of "shell_init w command0 inp" s]
  by (simp add: main_start_def shell_inv_def)

lemma reachable_shell_inv: "reachable w s \<Longrightarrow> shell_inv s"
  by (induction rule: reachable.induct) (auto intro: main_start_Inr step_Continue)

lemma reachable_command_recorded:
  assumes "reachable w s" "command s ! 0 \<noteq> NL" "command s ! 0 \<noteq> BANG"
  shows "hist_list (history s) (history_size s) \<noteq> []
         \<and> last (hist_list (history s) (history_size s)) = cstr (command s)"
  using assms
proof (induction rule: reachable.induct)
  case (start command0 inp s)
  then show ?case
    using shell_init_inv [OF start.hyps(1), of w inp] read_command_last [of "shell_init w command0 inp" s]
    by (simp add: main_start_def)
next
  case (iter s s')
  obtain s2 s3 ps where rc: "read_command s2 = Inr s3"
    and s': "s' = s3\<lparr>arguments := memset_ptrs (ARGUMENT_SIZE - 1) (arguments s3)\<rparr>"
    and h2: "hist_inv (history s2) (history_size s2)" and l2: "length (command s2) = COMMAND_SIZE"
    using step_Continue_read [OF reachable_shell_inv [OF iter.hyps(1)] iter.hyps(2)] by blast
  show ?case using read_command_last [OF h2 l2 rc] iter.prems s' by simp
qed



lemma ParseCommand_empty:
  assumes "length c = COMMAND_SIZE" "cstr c = []"
  shows "ParseCommand c args = Inr (c, args)"
proof -
  have lt: "length (cstr c) < length c" using assms by (simp add: shell_consts)
  have sp: "split_sp 0 [] = ([], [])" by (simp add: split_sp.simps)
  have "c = NUL # drop (Suc 0) c" using cstr_decomp [OF lt] assms(2) by simp
  moreover have "tokens [] = []" by (simp add: tokens_def)
  ultimately show ?thesis using ParseCommand_eq [OF lt, of args] assms(2) sp by simp
qed

lemma eof_step:
  assumes "shell_inv s" "stdin s = []" "cstr (command s) = []"
    and "fork_result w (forks s) = Some p" "ub_status w ExecNullFile = Some st"
  shows "\<exists>s'. step w s = Continue s' \<and> stdin s' = [] \<and> cstr (command s') = []
           \<and> shown s' = shown s @ Spawn (ChildUndefined ExecNullFile) # report st
                         @ [Out PROMPT, Perror (''command input failed'' @ [NL])]"
proof -
  have len: "length (command s) = COMMAND_SIZE" and a: "args_ok (arguments s)"
    and h: "hist_inv (history s) (history_size s)"
    using assms(1) by (simp_all add: shell_inv_def cmd_ok_def)
  have c0: "command s ! 0 = NUL"
    using cstr_decomp [of "command s"] len assms(3) by (metis append_Nil cmd_ok_def assms(1) shell_inv_def nth_Cons_0)
  have lc: "loop_cond s" using assms(3) by (simp add: loop_cond_def CheckForContinue_def)
  have argv: "argv_of (command s) 0 (arguments s) = Inr []"
  proof -
    have "arguments s = Null # drop (Suc 0) (arguments s)" using args_ok_drop_low [OF a, of 0] by simp
    then show ?thesis by (metis argv_of.simps(2))
  qed
  let ?cr = "ChildUndefined ExecNullFile"
  let ?s1 = "emit (Spawn ?cr # report st) (s\<lparr>forks := Suc (forks s)\<rparr>)"
  have d: "dispatch w s = Continue ?s1"
    using c0 assms(3,4,5) ParseCommand_empty [OF len assms(3)] argv
    by (simp add: dispatch_def ExecuteCommand_def wait_answers_def child_status_def child_output_def
        Let_def emit_def)
  have hs: "history_step ?s1 = Inr ?s1" using assms(3) by (simp add: history_step_def emit_def)
  obtain c' where gc: "GetCommand (command s) [] = (c', [], [Out PROMPT, Perror (''command input failed'' @ [NL])])"
    and c': "cstr c' = []"
    using GetCommand_eof [OF len] by blast
  let ?s2 = "emit [Out PROMPT, Perror (''command input failed'' @ [NL])] (?s1\<lparr>command := c', stdin := []\<rparr>)"
  have cok: "cmd_ok c'" using GetCommand_buffer [OF len gc] by simp
  have c'0: "c' ! 0 = NUL"
    using cstr_decomp [of c'] cok c' by (metis append_Nil cmd_ok_def nth_Cons_0)
  have rs: "recall_step ?s2 = Inr ?s2" using c'0 by (simp add: recall_step_def is_recall_def emit_def)
  obtain hh nn where rec: "record_step ?s2 = Inr (?s2\<lparr>history := hh, history_size := nn\<rparr>)"
    using record_step_Inr [of ?s2] h cok by (auto simp: emit_def)
  have "read_command ?s1 = Inr (?s2\<lparr>history := hh, history_size := nn\<rparr>)"
    using gc rs rec assms(2) by (simp add: read_command_def emit_def)
  then have "step w s = Continue ((?s2\<lparr>history := hh, history_size := nn\<rparr>)\<lparr>arguments :=
               memset_ptrs (ARGUMENT_SIZE - 1) (arguments s)\<rparr>)"
    using lc d hs by (simp add: step_def emit_def)
  then show ?thesis using c' by (simp add: emit_def)
qed


lemma parse_argv_in_shell:
  assumes "shell_inv s" "tokens (cstr (command s)) = argv" "length argv < 6"
  shows "\<exists>c args. ParseCommand (command s) (arguments s) = Inr (c, args) \<and> argv_of c 0 args = Inr argv"
proof -
  have a: "args_ok (arguments s)" and cm: "length (command s) = COMMAND_SIZE" "length (cstr (command s)) < COMMAND_SIZE"
    using assms(1) by (simp_all add: shell_inv_def cmd_ok_def)
  obtain c offs where p: "ParseCommand (command s) (arguments s) = Inr (c, map Ptr offs @ drop (length offs) (arguments s))"
    and r: "map (cstr_at c) offs = argv"
    using ParseCommand_slots [OF a cm] assms(2) by blast
  have "length offs < 6" using r assms(3) by (metis length_map)
  then have "drop (length offs) (arguments s) = Null # drop (Suc (length offs)) (arguments s)"
    using args_ok_drop_low [OF a] by blast
  then have "argv_of c 0 (map Ptr offs @ drop (length offs) (arguments s)) = Inr argv"
    using r by (simp add: argv_of_map_Ptr)
  with p show ?thesis by blast
qed

lemma recall_step_signals: "recall_step s = Inr s' \<Longrightarrow> signals s' = signals s"
  by (auto simp: recall_step_def emit_def split: if_splits sum.splits prod.splits)

lemma record_step_signals: "record_step s = Inr s' \<Longrightarrow> signals s' = signals s"
  by (auto simp: record_step_def split: if_splits sum.splits prod.splits)

lemma read_command_signals: "read_command s = Inr s' \<Longrightarrow> signals s' = signals s"
  by (auto simp: read_command_def emit_def split: prod.splits sum.splits
      dest!: recall_step_signals record_step_signals)

lemma dispatch_signals: "dispatch w s = Continue s' \<Longrightarrow> signals s' = signals s"
  by (auto simp: dispatch_def emit_def Let_def split: if_splits sum.splits prod.splits option.splits)

lemma history_step_signals: "history_step s = Inr s' \<Longrightarrow> signals s' = signals s"
  by (auto simp: history_step_def emit_def split: if_splits sum.splits)

lemma step_signals: "step w s = Continue s' \<Longrightarrow> signals s' = signals s"
  by (auto simp: step_def split: if_splits outcome.splits sum.splits
      dest!: dispatch_signals history_step_signals read_command_signals)

lemma reachable_signals: "reachable w s \<Longrightarrow> signals s = ignore_signals (inherited w)"
  by (induction rule: reachable.induct)
     (auto simp: main_start_def shell_init_def dest!: read_command_signals step_signals)

lemma read_simple:
  assumes "hist_inv (history s) (history_size s)" "length (command s) = COMMAND_SIZE"
    and "stdin s = l @ NL # rest" "simple_line l"
  shows "\<exists>s'. read_command s = Inr s' \<and> stdin s' = rest
           \<and> cstr (command s') = (if l = [] then [NL] else l)
           \<and> hist_list (history s') (history_size s') =
               (if l = [] then hist_list (history s) (history_size s)
                else ring_record (hist_list (history s) (history_size s)) l)"
proof -
  have l: "NL \<notin> set l" "NUL \<notin> set l" "length l < COMMAND_SIZE - 1" "l = [] \<or> hd l \<noteq> BANG"
    using assms(4) by (simp_all add: simple_line_def)
  obtain c' where gc: "GetCommand (command s) (l @ NL # rest) = (c', rest, [Out PROMPT])"
    and cs: "cstr c' = (if l = [] then [NL] else l)"
    using GetCommand_reads_line [OF assms(2) l(1-3)] by blast
  let ?s1 = "emit [Out PROMPT] (s\<lparr>command := c', stdin := rest\<rparr>)"
  have c0: "c' ! 0 = (if l = [] then NL else hd l)" using cstr_hd [of c'] cs by auto
  have rs: "recall_step ?s1 = Inr ?s1" using c0 l(4) by (auto simp: recall_step_def is_recall_def emit_def)
  show ?thesis
  proof (cases "l = []")
    case True
    then have "record_step ?s1 = Inr ?s1" using c0 by (simp add: record_step_def emit_def)
    then show ?thesis using gc rs assms(3) cs True by (simp add: read_command_def emit_def)
  next
    case False
    have ok: "line_ok l" using l by (simp add: line_ok_def)
    obtain h' n' where a: "AddToHistory (history s) l (history_size s) = Inr (h', n')"
      and hl: "hist_list h' n' = ring_record (hist_list (history s) (history_size s)) l"
      using AddToHistory_inv [OF assms(1) ok] by blast
    have "hd l \<noteq> NL" using False l(1) by (cases l) auto
    then have "record_step ?s1 = Inr (?s1\<lparr>history := h', history_size := n'\<rparr>)"
      using c0 False l(4) cs a by (simp add: record_step_def emit_def)
    then show ?thesis using gc rs assms(3) cs False hl by (simp add: read_command_def emit_def)
  qed
qed

lemma child_status_total:
  "\<forall>a. run_status w a \<noteq> None \<Longrightarrow> \<forall>e. ub_status w e \<noteq> None \<Longrightarrow> \<exists>st. child_status w cr = Some st"
  by (cases cr) (auto simp: child_status_def)

lemma dispatch_total:
  assumes "shell_inv s" "\<forall>n. fork_result w n \<noteq> None"
    and "\<forall>a. run_status w a \<noteq> None" "\<forall>e. ub_status w e \<noteq> None"
  shows "\<exists>s1. dispatch w s = Continue s1 \<and> stdin s1 = stdin s"
proof (cases "command s ! 0 \<noteq> NL \<and> cstr (command s) \<noteq> ''history''")
  case True
  obtain c offs where p: "ParseCommand (command s) (arguments s) = Inr (c, fill_from 0 offs (arguments s))"
    using parse_in_shell [OF assms(1)] by blast
  obtain q where fk: "fork_result w (forks s) = Some q" using assms(2) by blast
  let ?cr = "ExecuteCommand (found w) c (fill_from 0 offs (arguments s))"
  obtain st where cs: "child_status w ?cr = Some st" using child_status_total [OF assms(3,4)] by blast
  show ?thesis using True p fk cs by (simp add: dispatch_def Let_def wait_answers_def emit_def)
next
  case False
  then show ?thesis by (auto simp: dispatch_def)
qed

lemma history_step_stdin: "history_step s = Inr s' \<Longrightarrow> stdin s' = stdin s"
  by (auto simp: history_step_def emit_def split: if_splits sum.splits)

lemma step_simple:
  assumes "shell_inv s" "loop_cond s" "stdin s = l @ NL # rest" "simple_line l"
    and "\<forall>n. fork_result w n \<noteq> None" "\<forall>a. run_status w a \<noteq> None" "\<forall>e. ub_status w e \<noteq> None"
  shows "\<exists>s'. step w s = Continue s' \<and> stdin s' = rest
           \<and> cstr (command s') = (if l = [] then [NL] else l)
           \<and> hist_list (history s') (history_size s') =
               (if l = [] then hist_list (history s) (history_size s)
                else ring_record (hist_list (history s) (history_size s)) l)"
proof -
  obtain s1 where d: "dispatch w s = Continue s1" and in1: "stdin s1 = stdin s"
    using dispatch_total [OF assms(1,5-7)] by blast
  note d1 = dispatch_Continue [OF assms(1) d]
  have h1: "hist_inv (history s1) (history_size s1)" using d1 assms(1) by (simp add: shell_inv_def)
  obtain evs where hs: "history_step s1 = Inr (emit evs s1)" using history_step_Inr [OF h1] by blast
  obtain s3 where rc: "read_command (emit evs s1) = Inr s3" and s3: "stdin s3 = rest"
    "cstr (command s3) = (if l = [] then [NL] else l)"
    "hist_list (history s3) (history_size s3) =
       (if l = [] then hist_list (history s1) (history_size s1)
        else ring_record (hist_list (history s1) (history_size s1)) l)"
    using read_simple [of "emit evs s1" l rest] h1 d1 in1 assms(3,4) by (auto simp: emit_def)
  have "step w s = Continue (s3\<lparr>arguments := memset_ptrs (ARGUMENT_SIZE - 1) (arguments s3)\<rparr>)"
    using assms(2) d hs rc by (simp add: step_def)
  then show ?thesis using s3 d1 by simp
qed

lemma loop_cond_simple:
  "cstr (command s) = (if l = [] then [NL] else l) \<Longrightarrow> l \<noteq> ''exit'' \<Longrightarrow> l \<noteq> ''logout'' \<Longrightarrow> loop_cond s"
  using cstr_hd [of "command s"] by (auto simp: loop_cond_def CheckForContinue_def split: if_splits)

lemma step_exit: "cstr (command s) = ''exit'' \<Longrightarrow> step w s = Exit 0 s"
  using cstr_hd [of "command s"] by (simp add: step_def loop_cond_def CheckForContinue_def)

lemma run_simple:
  assumes "shell_inv s" "loop_cond s"
    and "stdin s = concat (map (\<lambda>l. l @ [NL]) ls) @ ''exit'' @ NL # rest"
    and "list_all (\<lambda>l. simple_line l \<and> l \<noteq> ''exit'' \<and> l \<noteq> ''logout'') ls"
    and w: "\<forall>n. fork_result w n \<noteq> None" "\<forall>a. run_status w a \<noteq> None" "\<forall>e. ub_status w e \<noteq> None"
  shows "\<exists>s'. run w (Suc (Suc (length ls))) s = Exit 0 s' \<and> stdin s' = rest
           \<and> hist_list (history s') (history_size s') =
               foldl ring_record (hist_list (history s) (history_size s)) (filter (\<lambda>l. l \<noteq> []) ls @ [''exit''])"
  using assms(1-4)
proof (induction ls arbitrary: s)
  case Nil
  have sl: "simple_line ''exit''" by (simp add: simple_line_def shell_consts)
  obtain s1 where st: "step w s = Continue s1" and s1: "stdin s1 = rest" "cstr (command s1) = ''exit''"
    "hist_list (history s1) (history_size s1) = ring_record (hist_list (history s) (history_size s)) ''exit''"
    using step_simple [OF Nil.prems(1,2) _ sl w, of rest] Nil.prems(3) by auto
  have "run w (Suc (Suc 0)) s = Exit 0 s1" using st step_exit [OF s1(2)] by simp
  then show ?case using s1 by simp
next
  case (Cons l ls)
  have l: "simple_line l" "l \<noteq> ''exit''" "l \<noteq> ''logout''" using Cons.prems(4) by simp_all
  obtain s1 where st: "step w s = Continue s1"
    and s1: "stdin s1 = concat (map (\<lambda>l. l @ [NL]) ls) @ ''exit'' @ NL # rest"
      "cstr (command s1) = (if l = [] then [NL] else l)"
      "hist_list (history s1) (history_size s1) =
         (if l = [] then hist_list (history s) (history_size s)
          else ring_record (hist_list (history s) (history_size s)) l)"
    using step_simple [OF Cons.prems(1,2) _ l(1) w] Cons.prems(3) by auto
  have inv1: "shell_inv s1" using step_Continue [OF Cons.prems(1) st] .
  have lc1: "loop_cond s1" using loop_cond_simple [OF s1(2) l(2,3)] .
  obtain s' where r: "run w (Suc (Suc (length ls))) s1 = Exit 0 s'" and s': "stdin s' = rest"
    "hist_list (history s') (history_size s') =
       foldl ring_record (hist_list (history s1) (history_size s1)) (filter (\<lambda>l. l \<noteq> []) ls @ [''exit''])"
    using Cons.IH [OF inv1 lc1 s1(1)] Cons.prems(4) by auto
  have "run w (Suc (Suc (length (l # ls)))) s = Exit 0 s'" using st r by simp
  then show ?case using s' s1(3) by auto
qed

lemma session_simple:
  assumes "length command0 = COMMAND_SIZE"
    and "list_all (\<lambda>l. simple_line l \<and> l \<noteq> ''exit'' \<and> l \<noteq> ''logout'') ls"
    and w: "\<forall>n. fork_result w n \<noteq> None" "\<forall>a. run_status w a \<noteq> None" "\<forall>e. ub_status w e \<noteq> None"
  shows "\<exists>s'. session w command0 (concat (map (\<lambda>l. l @ [NL]) ls) @ ''exit'' @ NL # rest) (Suc (length ls))
              = Inr (Exit 0 s') \<and> stdin s' = rest
           \<and> hist_list (history s') (history_size s') = foldl ring_record [] (filter (\<lambda>l. l \<noteq> []) ls @ [''exit''])"
proof -
  let ?s0 = "shell_init w command0 (concat (map (\<lambda>l. l @ [NL]) ls) @ ''exit'' @ NL # rest)"
  have i0: "hist_inv (history ?s0) (history_size ?s0)" "length (command ?s0) = COMMAND_SIZE"
    using shell_init_inv [OF assms(1)] by simp_all
  have h0: "hist_list (history ?s0) (history_size ?s0) = []" by (simp add: shell_init_def hist_list_init)
  show ?thesis
  proof (cases ls)
    case Nil
    have sl: "simple_line ''exit''" by (simp add: simple_line_def shell_consts)
    obtain s1 where rc: "read_command ?s0 = Inr s1" and s1: "stdin s1 = rest" "cstr (command s1) = ''exit''"
      "hist_list (history s1) (history_size s1) = ring_record [] ''exit''"
      using read_simple [OF i0 _ sl, of rest] h0 Nil by (auto simp: shell_init_def)
    have "session w command0 (concat (map (\<lambda>l. l @ [NL]) ls) @ ''exit'' @ NL # rest) (Suc (length ls))
            = Inr (Exit 0 s1)"
      using rc step_exit [OF s1(2)] Nil by (simp add: session_def main_start_def)
    then show ?thesis using s1 Nil by simp
  next
    case (Cons l ls')
    have l: "simple_line l" "l \<noteq> ''exit''" "l \<noteq> ''logout''"
      and ls': "list_all (\<lambda>l. simple_line l \<and> l \<noteq> ''exit'' \<and> l \<noteq> ''logout'') ls'"
      using assms(2) Cons by simp_all
    obtain s1 where rc: "read_command ?s0 = Inr s1"
      and s1: "stdin s1 = concat (map (\<lambda>l. l @ [NL]) ls') @ ''exit'' @ NL # rest"
        "cstr (command s1) = (if l = [] then [NL] else l)"
        "hist_list (history s1) (history_size s1) = (if l = [] then [] else ring_record [] l)"
      using read_simple [OF i0 _ l(1)] h0 Cons by (auto simp: shell_init_def)
    have inv1: "shell_inv s1" using main_start_Inr [OF assms(1)] rc by (simp add: main_start_def)
    obtain s' where r: "run w (Suc (Suc (length ls'))) s1 = Exit 0 s'" and s': "stdin s' = rest"
      "hist_list (history s') (history_size s') =
         foldl ring_record (hist_list (history s1) (history_size s1)) (filter (\<lambda>l. l \<noteq> []) ls' @ [''exit''])"
      using run_simple [OF inv1 loop_cond_simple [OF s1(2) l(2,3)] s1(1) ls' w] by blast
    have "session w command0 (concat (map (\<lambda>l. l @ [NL]) ls) @ ''exit'' @ NL # rest) (Suc (length ls))
            = Inr (Exit 0 s')"
      using rc r Cons by (simp add: session_def main_start_def)
    then show ?thesis using s' s1(3) Cons by auto
  qed
qed

lemma demo_world_total:
  "(\<forall>n. fork_result demo_world n \<noteq> None) \<and> (\<forall>a. run_status demo_world a \<noteq> None)
   \<and> (\<forall>e. ub_status demo_world e \<noteq> None)"
  by (simp add: demo_world_def)

section \<open>Properties\<close>

text \<open>C3: Every loop-head state of every run satisfies the invariant: the history
  array is well formed with valid lines below \<open>history_size\<close> and no valid
  pointer above it, the command buffer holds a terminated string, and the argument
  slots have the six NULLs and no NULL after them.\<close>

theorem reachable_invariant: "reachable w s \<Longrightarrow> shell_inv s"
  by (induction rule: reachable.induct) (auto intro: main_start_Inr step_Continue)

theorem reachable_invariant_witness:
  "\<exists>s. main_start demo_world (replicate 100 NUL) (''ls'' @ [NL]) = Inr s \<and> shell_inv s"
proof -
  have "\<not> isl (main_start demo_world (replicate 100 NUL) (''ls'' @ [NL]))" by code_simp
  then obtain s where m: "main_start demo_world (replicate 100 NUL) (''ls'' @ [NL]) = Inr s"
    by (cases "main_start demo_world (replicate 100 NUL) (''ls'' @ [NL])") auto
  have "reachable demo_world s" by (rule reachable.start [OF _ m]) (simp add: shell_consts)
  with m show ?thesis using reachable_invariant by blast
qed

text \<open>C16: At the loop head of every run, a command that does not start with a newline
  or \<open>!\<close> is the newest line of the history: lines 106--109 record each line right after
  it is read (and after GetEcho has replaced a recall), before it is run.\<close>

theorem reachable_runs_last_recorded:
  assumes "reachable w s" "command s ! 0 \<noteq> NL" "command s ! 0 \<noteq> BANG"
  shows "hist_list (history s) (history_size s) \<noteq> []
         \<and> last (hist_list (history s) (history_size s)) = cstr (command s)"
  using reachable_command_recorded [OF assms] .

theorem reachable_runs_last_recorded_witness:
  "\<exists>s s1. main_start demo_world (replicate 100 NUL) (''ls'' @ NL # ''!!'' @ [NL]) = Inr s
     \<and> step demo_world s = Continue s1 \<and> command s1 ! 0 \<noteq> NL \<and> command s1 ! 0 \<noteq> BANG
     \<and> hist_list (history s1) (history_size s1) \<noteq> [] \<and> cstr (command s1) = ''ls''
     \<and> last (hist_list (history s1) (history_size s1)) = cstr (command s1)"
proof -
  have "case main_start demo_world (replicate 100 NUL) (''ls'' @ NL # ''!!'' @ [NL]) of Inl _ \<Rightarrow> False
          | Inr s \<Rightarrow> (case step demo_world s of Continue s1 \<Rightarrow>
               command s1 ! 0 = CHR ''l'' \<and> cstr (command s1) = ''ls'' | _ \<Rightarrow> False)"
    by code_simp
  then obtain s s1 where m: "main_start demo_world (replicate 100 NUL) (''ls'' @ NL # ''!!'' @ [NL]) = Inr s"
    and st: "step demo_world s = Continue s1"
    and c: "command s1 ! 0 = CHR ''l''" "cstr (command s1) = ''ls''"
    by (auto split: sum.splits outcome.splits)
  have "reachable demo_world s" by (rule reachable.start [OF _ m]) (simp add: shell_consts)
  then have r: "reachable demo_world s1" using st by (rule reachable.iter)
  have "command s1 ! 0 \<noteq> NL" "command s1 ! 0 \<noteq> BANG" using c(1) by simp_all
  with reachable_runs_last_recorded [OF r] m st c(2) show ?thesis by blast
qed

text \<open>C17: the command \<^verbatim>\<open>history\<close> lists itself: the launcher skips it, and the
  listing of lines 93--97 ends with the line \<open>"n. history"\<close>, since the command was
  recorded before it ran; the spec has it list the commands entered before it.\<close>

theorem history_lists_itself:
  assumes "reachable w s" "cstr (command s) = ''history''"
  shows "dispatch w s = Continue s
         \<and> history_step s = Inr (emit (ring_listing 1 (hist_list (history s) (history_size s))) s)
         \<and> last (ring_listing 1 (hist_list (history s) (history_size s)))
             = Out (dec_string (int (history_size s)) @ ''. history'' @ [NL])"
proof -
  have wf: "hist_wf (history s) (history_size s)"
    using reachable_shell_inv [OF assms(1)] by (simp add: shell_inv_def hist_inv_def)
  have c0: "command s ! 0 = CHR ''h''" using cstr_hd [of "command s"] assms(2) by simp
  have ne: "hist_list (history s) (history_size s) \<noteq> []"
    and la: "last (hist_list (history s) (history_size s)) = ''history''"
    using reachable_command_recorded [OF assms(1)] c0 assms(2) by simp_all
  have d: "dispatch w s = Continue s" using assms(2) by (simp add: dispatch_def)
  have hs: "history_step s = Inr (emit (ring_listing 1 (hist_list (history s) (history_size s))) s)"
    using PrintHistory_ring_listing [OF wf] assms(2) by (simp add: history_step_def)
  have "last (ring_listing 1 (hist_list (history s) (history_size s)))
          = Out (dec_string (int (history_size s)) @ ''. history'' @ [NL])"
    using ring_listing_last [OF ne, of 1] la length_hist_list [OF wf] by simp
  with d hs show ?thesis by simp
qed

theorem history_lists_itself_witness:
  "\<exists>s s1. main_start demo_world (replicate 100 NUL) (''ls'' @ NL # ''history'' @ [NL]) = Inr s
     \<and> step demo_world s = Continue s1 \<and> cstr (command s1) = ''history'' \<and> dispatch demo_world s1 = Continue s1
     \<and> last (ring_listing 1 (hist_list (history s1) (history_size s1))) = Out (''2. history'' @ [NL])"
proof -
  have "case main_start demo_world (replicate 100 NUL) (''ls'' @ NL # ''history'' @ [NL]) of Inl _ \<Rightarrow> False
          | Inr s \<Rightarrow> (case step demo_world s of Continue s1 \<Rightarrow>
               cstr (command s1) = ''history'' \<and> history_size s1 = 2 | _ \<Rightarrow> False)"
    by code_simp
  then obtain s s1 where m: "main_start demo_world (replicate 100 NUL) (''ls'' @ NL # ''history'' @ [NL]) = Inr s"
    and st: "step demo_world s = Continue s1"
    and c: "cstr (command s1) = ''history''" "history_size s1 = 2"
    by (auto split: sum.splits outcome.splits)
  have "reachable demo_world s" by (rule reachable.start [OF _ m]) (simp add: shell_consts)
  then have r: "reachable demo_world s1" using st by (rule reachable.iter)
  have "dec_string (int 2) = ''2''" by code_simp
  with history_lists_itself [OF r c(1)] m st c show ?thesis by auto
qed

text \<open>C18: a line of spaces, which has no tokens, is still forked: the child calls
  \<open>execvp(NULL, args)\<close> (undefined behaviour) and the parent reports whatever status it
  ends with; the spec treats an empty argument vector as nothing to execute.\<close>

theorem dispatch_blank_undefined:
  assumes "reachable w s" "command s ! 0 \<noteq> NL" "tokens (cstr (command s)) = []"
    and "fork_result w (forks s) = Some p" "child_status w (ChildUndefined ExecNullFile) = Some st"
  shows "\<exists>s'. dispatch w s = Continue s' \<and> history s' = history s \<and> history_size s' = history_size s
           \<and> shown s' = shown s @ Spawn (ChildUndefined ExecNullFile) # child_output (ChildUndefined ExecNullFile)
                         @ report st"
proof -
  have h: "cstr (command s) \<noteq> ''history''"
  proof
    assume "cstr (command s) = ''history''"
    then show False using assms(3) by (simp add: tokens_def)
  qed
  obtain c args where p: "ParseCommand (command s) (arguments s) = Inr (c, args)"
    and av: "argv_of c 0 args = Inr []"
    using parse_argv_in_shell [OF reachable_shell_inv [OF assms(1)] assms(3)] by auto
  have ex: "ExecuteCommand (found w) c args = ChildUndefined ExecNullFile" using av by (simp add: ExecuteCommand_def)
  show ?thesis
    using assms(2,4,5) h p ex by (simp add: dispatch_def Let_def wait_answers_def emit_def)
qed

theorem dispatch_blank_undefined_witness:
  "\<exists>s. main_start demo_world (replicate 100 NUL) (''   '' @ [NL]) = Inr s \<and>
     (\<exists>s'. dispatch demo_world s = Continue s' \<and> history s' = history s \<and> history_size s' = history_size s
        \<and> shown s' = shown s @ Spawn (ChildUndefined ExecNullFile) # child_output (ChildUndefined ExecNullFile)
                      @ report (signal_status 11))"
proof -
  have "case main_start demo_world (replicate 100 NUL) (''   '' @ [NL]) of Inl _ \<Rightarrow> False
          | Inr s \<Rightarrow> command s ! 0 \<noteq> NL \<and> tokens (cstr (command s)) = [] \<and> forks s = 0" by code_simp
  then obtain s where m: "main_start demo_world (replicate 100 NUL) (''   '' @ [NL]) = Inr s"
    and c: "command s ! 0 \<noteq> NL" "tokens (cstr (command s)) = []" "forks s = 0"
    by (auto split: sum.splits)
  have r: "reachable demo_world s" by (rule reachable.start [OF _ m]) (simp add: shell_consts)
  have "\<exists>s'. dispatch demo_world s = Continue s' \<and> history s' = history s \<and> history_size s' = history_size s
          \<and> shown s' = shown s @ Spawn (ChildUndefined ExecNullFile) # child_output (ChildUndefined ExecNullFile)
                        @ report (signal_status 11)"
    by (rule dispatch_blank_undefined [OF r c(1,2)]) (simp_all add: c(3) demo_world_def child_status_def)
  with m show ?thesis by blast
qed

text \<open>C15: The launcher runs what the spec's tokenizer gives: from a reachable state, a
  command line of one to five tokens (not a newline, not \<^verbatim>\<open>history\<close>) is
  forked and the child execs exactly that token list, or prints the failure when
  the program is not found; the parent then reports the child's status as
  MonitorChildProcess does, and the history is untouched.\<close>

theorem dispatch_runs_tokens:
  assumes "reachable w s" "command s ! 0 \<noteq> NL" "cstr (command s) \<noteq> ''history''"
    and "tokens (cstr (command s)) = file # rest" "length (file # rest) < 6"
    and "fork_result w (forks s) = Some p" "child_status w cr = Some st"
    and "cr = (if found w file then ChildExec (file # rest) else ChildExecFailed (file # rest))"
  shows "\<exists>s'. dispatch w s = Continue s' \<and> history s' = history s \<and> history_size s' = history_size s
           \<and> shown s' = shown s @ Spawn cr # child_output cr @ report st"
proof -
  obtain c args where p: "ParseCommand (command s) (arguments s) = Inr (c, args)"
    and av: "argv_of c 0 args = Inr (file # rest)"
    using parse_argv_in_shell [OF reachable_shell_inv [OF assms(1)] assms(4,5)] by blast
  have ex: "ExecuteCommand (found w) c args = cr" using av assms(8) by (simp add: ExecuteCommand_def)
  show ?thesis
    using assms(2,3,6,7) p ex by (simp add: dispatch_def Let_def wait_answers_def emit_def)
qed

theorem dispatch_runs_tokens_witness:
  "\<exists>s. main_start demo_world (replicate 100 NUL) (''ls -l'' @ [NL]) = Inr s \<and>
     (\<exists>s'. dispatch demo_world s = Continue s' \<and> history s' = history s \<and> history_size s' = history_size s
        \<and> shown s' = shown s @ Spawn (ChildExec [''ls'', ''-l'']) # child_output (ChildExec [''ls'', ''-l''])
                      @ report (exit_status 0))"
proof -
  have "\<not> isl (main_start demo_world (replicate 100 NUL) (''ls -l'' @ [NL]))" by code_simp
  then obtain s where m: "main_start demo_world (replicate 100 NUL) (''ls -l'' @ [NL]) = Inr s"
    by (cases "main_start demo_world (replicate 100 NUL) (''ls -l'' @ [NL])") auto
  have "case main_start demo_world (replicate 100 NUL) (''ls -l'' @ [NL]) of Inl _ \<Rightarrow> False
          | Inr s \<Rightarrow> command s ! 0 \<noteq> NL \<and> cstr (command s) \<noteq> ''history''
                    \<and> tokens (cstr (command s)) = ''ls'' # [''-l''] \<and> forks s = 0" by code_simp
  with m have c: "command s ! 0 \<noteq> NL" "cstr (command s) \<noteq> ''history''"
    "tokens (cstr (command s)) = ''ls'' # [''-l'']" "forks s = 0" by simp_all
  have r: "reachable demo_world s" by (rule reachable.start [OF _ m]) (simp add: shell_consts)
  have "\<exists>s'. dispatch demo_world s = Continue s' \<and> history s' = history s \<and> history_size s' = history_size s
          \<and> shown s' = shown s @ Spawn (ChildExec [''ls'', ''-l'']) # child_output (ChildExec [''ls'', ''-l''])
                        @ report (exit_status 0)"
    by (rule dispatch_runs_tokens [OF r c(1,2,3)])
       (simp_all add: c(4) demo_world_def child_status_def)
  with m show ?thesis by blast
qed

text \<open>C19: A failed fork is fatal, as the spec requires: the shell prints the perror and
  calls \<open>exit(1)\<close>.\<close>

theorem fork_failure_exits:
  assumes "reachable w s" "loop_cond s" "command s ! 0 \<noteq> NL" "cstr (command s) \<noteq> ''history''"
    and "fork_result w (forks s) = None"
  shows "\<exists>s'. step w s = Exit 1 s' \<and> shown s' = shown s @ [Perror FORK_FAILED_MSG]"
proof -
  obtain c offs where p: "ParseCommand (command s) (arguments s) = Inr (c, fill_from 0 offs (arguments s))"
    using parse_in_shell [OF reachable_shell_inv [OF assms(1)]] by blast
  then show ?thesis using assms(2-5) by (simp add: step_def dispatch_def Let_def emit_def)
qed

theorem fork_failure_exits_witness:
  "\<exists>s. main_start (demo_world\<lparr>fork_result := (\<lambda>_. None)\<rparr>) (replicate 100 NUL) (''ls'' @ [NL]) = Inr s \<and>
     (\<exists>s'. step (demo_world\<lparr>fork_result := (\<lambda>_. None)\<rparr>) s = Exit 1 s'
        \<and> shown s' = shown s @ [Perror FORK_FAILED_MSG])"
proof -
  have "\<not> isl (main_start (demo_world\<lparr>fork_result := (\<lambda>_. None)\<rparr>) (replicate 100 NUL) (''ls'' @ [NL]))" by code_simp
  then obtain s where m: "main_start (demo_world\<lparr>fork_result := (\<lambda>_. None)\<rparr>) (replicate 100 NUL) (''ls'' @ [NL]) = Inr s"
    by (cases "main_start (demo_world\<lparr>fork_result := (\<lambda>_. None)\<rparr>) (replicate 100 NUL) (''ls'' @ [NL])") auto
  have "case main_start (demo_world\<lparr>fork_result := (\<lambda>_. None)\<rparr>) (replicate 100 NUL) (''ls'' @ [NL]) of Inl _ \<Rightarrow> False
          | Inr s \<Rightarrow> loop_cond s \<and> command s ! 0 \<noteq> NL \<and> cstr (command s) \<noteq> ''history''" by code_simp
  with m have c: "loop_cond s" "command s ! 0 \<noteq> NL" "cstr (command s) \<noteq> ''history''" by simp_all
  have r: "reachable (demo_world\<lparr>fork_result := (\<lambda>_. None)\<rparr>) s"
    by (rule reachable.start [OF _ m]) (simp add: shell_consts)
  from fork_failure_exits [OF r c] m show ?thesis by simp
qed

text \<open>C21: At the end of the input the shell never exits: as long as forks succeed,
  every iteration prints the prompt and the perror of GetCommand, records an empty
  line, and forks a child that calls execvp with a NULL file name; the spec
  requires termination when the input is closed.\<close>

theorem eof_loops_forever:
  assumes "reachable w s" "stdin s = []" "cstr (command s) = []"
    and "\<forall>n. fork_result w n \<noteq> None" "ub_status w ExecNullFile = Some st"
  shows "\<exists>s'. run w k s = Continue s' \<and> stdin s' = []
           \<and> shown s' = shown s @ concat (replicate k (Spawn (ChildUndefined ExecNullFile) # report st
                                  @ [Out PROMPT, Perror (''command input failed'' @ [NL])]))"
  using assms
proof (induction k arbitrary: s)
  case 0
  then show ?case by simp
next
  case (Suc k)
  obtain p where fk: "fork_result w (forks s) = Some p" using Suc.prems(4) by auto
  obtain s' where st: "step w s = Continue s'" and s': "stdin s' = []" "cstr (command s') = []"
    and sh: "shown s' = shown s @ Spawn (ChildUndefined ExecNullFile) # report st
                         @ [Out PROMPT, Perror (''command input failed'' @ [NL])]"
    using eof_step [OF reachable_shell_inv [OF Suc.prems(1)] Suc.prems(2,3) fk Suc.prems(5)] by blast
  have "reachable w s'" using Suc.prems(1) st by (rule reachable.iter)
  from Suc.IH [OF this s' Suc.prems(4,5)] st sh show ?case by auto
qed

theorem eof_loops_forever_witness:
  "\<exists>s. main_start demo_world (replicate 100 NUL) [] = Inr s \<and>
     (\<exists>s'. run demo_world 3 s = Continue s' \<and> stdin s' = []
        \<and> shown s' = shown s @ concat (replicate 3 (Spawn (ChildUndefined ExecNullFile) # report (signal_status 11)
                                  @ [Out PROMPT, Perror (''command input failed'' @ [NL])])))"
proof -
  have "\<not> isl (main_start demo_world (replicate 100 NUL) [])" by code_simp
  then obtain s where m: "main_start demo_world (replicate 100 NUL) [] = Inr s"
    by (cases "main_start demo_world (replicate 100 NUL) []") auto
  have "case main_start demo_world (replicate 100 NUL) [] of Inl _ \<Rightarrow> False
          | Inr s \<Rightarrow> stdin s = [] \<and> cstr (command s) = []" by code_simp
  with m have e: "stdin s = []" "cstr (command s) = []" by simp_all
  have "reachable demo_world s" by (rule reachable.start [OF _ m]) (simp add: shell_consts)
  from eof_loops_forever [OF this e, of "signal_status 11" 3] m show ?thesis
    by (simp add: demo_world_def)
qed


text \<open>C34: Every child the shell forks runs its program with SIGINT and SIGTSTP
  ignored, whatever dispositions the shell inherited: the sigaction calls of lines
  51--59 set both to SIG_IGN, nothing in the loop changes them, fork copies them and
  execve keeps an ignored signal ignored. The spec says the child inherits the default
  disposition, so that an interrupt reaches it.\<close>

theorem children_ignore_signals:
  assumes "reachable w s"
  shows "sigint_disp (exec_signals (signals s)) = SigIgnore \<and> sigtstp_disp (exec_signals (signals s)) = SigIgnore"
  using reachable_signals [OF assms] exec_ignore_signals by simp

theorem children_ignore_signals_witness:
  "\<exists>s. main_start demo_world (replicate 100 NUL) (''ls'' @ [NL]) = Inr s
     \<and> sigint_disp (exec_signals (signals s)) = SigIgnore \<and> sigtstp_disp (exec_signals (signals s)) = SigIgnore"
proof -
  have "\<not> isl (main_start demo_world (replicate 100 NUL) (''ls'' @ [NL]))" by code_simp
  then obtain s where m: "main_start demo_world (replicate 100 NUL) (''ls'' @ [NL]) = Inr s"
    by (cases "main_start demo_world (replicate 100 NUL) (''ls'' @ [NL])") auto
  have "reachable demo_world s" by (rule reachable.start [OF _ m]) (simp add: shell_consts)
  with m show ?thesis using children_ignore_signals by blast
qed

text \<open>C7: main terminates on every input made of simple lines followed by
  \<^verbatim>\<open>exit\<close>, in a world where forks succeed and every child ends: it calls
  \<open>exit(0)\<close> after exactly one loop iteration per line, with the input after the
  \<^verbatim>\<open>exit\<close> line left unread.\<close>

theorem session_exits:
  assumes "length command0 = COMMAND_SIZE"
    and "list_all (\<lambda>l. simple_line l \<and> l \<noteq> ''exit'' \<and> l \<noteq> ''logout'') ls"
    and "\<forall>n. fork_result w n \<noteq> None" "\<forall>a. run_status w a \<noteq> None" "\<forall>e. ub_status w e \<noteq> None"
  shows "\<exists>s'. session w command0 (concat (map (\<lambda>l. l @ [NL]) ls) @ ''exit'' @ NL # rest) (Suc (length ls))
              = Inr (Exit 0 s') \<and> stdin s' = rest"
  using session_simple [OF assms] by blast

text \<open>C8: over a whole session, the history main keeps refines the spec's bounded
  FIFO: at exit the recorded lines are \<open>ring_record\<close> folded over the non-empty
  lines typed, \<^verbatim>\<open>exit\<close> included (the code records the line before testing it),
  and empty lines are not recorded.\<close>

theorem session_history:
  assumes "length command0 = COMMAND_SIZE"
    and "list_all (\<lambda>l. simple_line l \<and> l \<noteq> ''exit'' \<and> l \<noteq> ''logout'') ls"
    and "\<forall>n. fork_result w n \<noteq> None" "\<forall>a. run_status w a \<noteq> None" "\<forall>e. ub_status w e \<noteq> None"
  shows "\<exists>s'. session w command0 (concat (map (\<lambda>l. l @ [NL]) ls) @ ''exit'' @ NL # rest) (Suc (length ls))
              = Inr (Exit 0 s')
           \<and> hist_list (history s') (history_size s') = foldl ring_record [] (filter (\<lambda>l. l \<noteq> []) ls @ [''exit''])"
  using session_simple [OF assms] by blast

theorem session_exits_witness:
  "length (replicate 100 NUL) = COMMAND_SIZE \<and>
   list_all (\<lambda>l. simple_line l \<and> l \<noteq> ''exit'' \<and> l \<noteq> ''logout'') [''ls'', '''', ''pwd''] \<and>
   (\<exists>s'. session demo_world (replicate 100 NUL) (''ls'' @ NL # NL # ''pwd'' @ NL # ''exit'' @ [NL]) 4
          = Inr (Exit 0 s') \<and> stdin s' = [])"
proof -
  have l: "list_all (\<lambda>l. simple_line l \<and> l \<noteq> ''exit'' \<and> l \<noteq> ''logout'') [''ls'', '''', ''pwd'']"
    by (simp add: simple_line_def shell_consts)
  have c: "length (replicate 100 NUL) = COMMAND_SIZE" by (simp add: shell_consts)
  have n: "Suc (length [''ls'', '''', ''pwd'']) = 4" by simp
  have inp: "concat (map (\<lambda>l. l @ [NL]) [''ls'', '''', ''pwd'']) @ ''exit'' @ NL # []
               = ''ls'' @ NL # NL # ''pwd'' @ NL # ''exit'' @ [NL]" by simp
  have e: "\<exists>s'. session demo_world (replicate 100 NUL)
             (concat (map (\<lambda>l. l @ [NL]) [''ls'', '''', ''pwd'']) @ ''exit'' @ NL # [])
             (Suc (length [''ls'', '''', ''pwd''])) = Inr (Exit 0 s') \<and> stdin s' = []"
    using session_exits [OF c l, of demo_world "[]"] demo_world_total by blast
  show ?thesis using e [unfolded n inp] l c by blast
qed

theorem session_history_witness:
  "length (replicate 100 NUL) = COMMAND_SIZE \<and>
   list_all (\<lambda>l. simple_line l \<and> l \<noteq> ''exit'' \<and> l \<noteq> ''logout'') [''ls'', '''', ''pwd''] \<and>
   (\<exists>s'. session demo_world (replicate 100 NUL) (''ls'' @ NL # NL # ''pwd'' @ NL # ''exit'' @ [NL]) 4
          = Inr (Exit 0 s') \<and> hist_list (history s') (history_size s') = [''ls'', ''pwd'', ''exit''])"
proof -
  have l: "list_all (\<lambda>l. simple_line l \<and> l \<noteq> ''exit'' \<and> l \<noteq> ''logout'') [''ls'', '''', ''pwd'']"
    by (simp add: simple_line_def shell_consts)
  have c: "length (replicate 100 NUL) = COMMAND_SIZE" by (simp add: shell_consts)
  have n: "Suc (length [''ls'', '''', ''pwd'']) = 4" by simp
  have inp: "concat (map (\<lambda>l. l @ [NL]) [''ls'', '''', ''pwd'']) @ ''exit'' @ NL # []
               = ''ls'' @ NL # NL # ''pwd'' @ NL # ''exit'' @ [NL]" by simp
  have f: "foldl ring_record [] (filter (\<lambda>l. l \<noteq> []) [''ls'', '''', ''pwd''] @ [''exit''])
             = [''ls'', ''pwd'', ''exit'']" by (simp add: ring_record_def shell_consts)
  have e: "\<exists>s'. session demo_world (replicate 100 NUL)
             (concat (map (\<lambda>l. l @ [NL]) [''ls'', '''', ''pwd'']) @ ''exit'' @ NL # [])
             (Suc (length [''ls'', '''', ''pwd''])) = Inr (Exit 0 s')
           \<and> hist_list (history s') (history_size s')
               = foldl ring_record [] (filter (\<lambda>l. l \<noteq> []) [''ls'', '''', ''pwd''] @ [''exit''])"
    using session_history [OF c l, of demo_world "[]"] demo_world_total by blast
  show ?thesis using e [unfolded n inp f] l c by blast
qed

end
