(* ===== verification/Machine.thy ===== *)
theory Machine
  imports Shell
begin

text \<open>
  The shell loop at the level of commands. The machine below keeps only what a user
  of the shell can observe: the recorded lines (oldest first), the number of forks
  so far and the events shown; it reads one line at a time, resolves a recall,
  records, and runs the command, without the buffers, pointer slots and strtok of
  the code. \<open>abs_read\<close> is one GetCommand with the recall of lines 61--68 and
  100--109, \<open>abs_exec\<close> one dispatch with the listing of lines 75--97,
  \<open>abs_loop\<close> the while loop of lines 72--114. The theorem of this theory is that
  main, run on any input of well-formed lines in any world, is observed exactly as
  the machine predicts: same outcome, same history, same events.
\<close>

section \<open>The command-level machine\<close>

text \<open>The string \<open>strtok\<close> leaves in the command buffer: the line up to the end of
  its first token (leading spaces kept).\<close>

definition cut_first :: "string \<Rightarrow> string" where
  "cut_first s = takeWhile (\<lambda>c. c = SP) s @ takeWhile (\<lambda>c. c \<noteq> SP) (dropWhile (\<lambda>c. c = SP) s)"

text \<open>The recall number of a two-character request \<^verbatim>\<open>!x\<close>.\<close>

definition recall_number :: "string \<Rightarrow> int" where
  "recall_number l = (if l ! 1 = BANG then 1 else if is_digit (l ! 1) then digit_value (l ! 1) else 0)"

text \<open>The undefined read of \<open>history[list_size]\<close> for the recall number 0.\<close>

definition recall_ub :: "nat \<Rightarrow> ub" where
  "recall_ub n = (if n < HISTORY_CAPACITY then HistorySlotUnset n else HistoryIndexOutOfRange (int n))"

text \<open>Lines 65--68: record the command unless it starts with a newline or \<open>!\<close>.\<close>

definition abs_record :: "string list \<Rightarrow> string \<Rightarrow> string list" where
  "abs_record h c = (if c \<noteq> [] \<and> (hd c = NL \<or> hd c = BANG) then h else ring_record h c)"

text \<open>GetEcho on the recorded lines: the resolved command and what is printed.\<close>

definition abs_recall :: "string list \<Rightarrow> string \<Rightarrow> ub + (string \<times> event list)" where
  "abs_recall h c =
     (let k = recall_number c in
      if int (length h) < k then
        Inr (c, [Out (''error: there have not been '' @ dec_string k @ '' command(s) entered'')])
      else if k = 0 then Inl (recall_ub (length h))
      else (let x = h ! (length h - nat k) in Inr (x, [Out (x @ [NL]), Sleep 1])))"

text \<open>One read: the line as GetCommand leaves it (the empty line stays a newline), the
  recall of a two-character \<^verbatim>\<open>!x\<close>, and the recording.\<close>

definition abs_read :: "string list \<Rightarrow> string \<Rightarrow> ub + (string list \<times> string \<times> event list)" where
  "abs_read h l =
     (let c = (if l = [] then [NL] else l) in
      if c \<noteq> [] \<and> hd c = BANG \<and> length c = 2 then
        (case abs_recall h c of
           Inl e \<Rightarrow> Inl e
         | Inr (c', evs) \<Rightarrow> Inr (abs_record h c', c', Out PROMPT # evs))
      else Inr (abs_record h c, c, [Out PROMPT]))"

definition EOF_EVENTS :: "event list" where
  "EOF_EVENTS = [Out PROMPT, Perror (''command input failed'' @ [NL])]"

text \<open>The child of a command with these tokens.\<close>

definition abs_child :: "world \<Rightarrow> string list \<Rightarrow> child_run" where
  "abs_child w argv =
     (case argv of [] \<Rightarrow> ChildUndefined ExecNullFile
      | f # _ \<Rightarrow> (if found w f then ChildExec argv else ChildExecFailed argv))"

definition abs_listing :: "string list \<Rightarrow> string \<Rightarrow> event list" where
  "abs_listing h c = (if c = ''history'' then ring_listing 1 h else [])"

datatype exec_end = EContinue nat "event list" | EExit1 "event list" | EBlock "event list"

definition abs_exec :: "world \<Rightarrow> nat \<Rightarrow> string list \<Rightarrow> string \<Rightarrow> exec_end" where
  "abs_exec w f h c =
     (if (c = [] \<or> hd c \<noteq> NL) \<and> c \<noteq> ''history'' then
        (case fork_result w f of
           None \<Rightarrow> EExit1 [Perror FORK_FAILED_MSG]
         | Some _ \<Rightarrow>
             (let cr = abs_child w (tokens c) in
              case child_status w cr of
                None \<Rightarrow> EBlock (Spawn cr # child_output cr)
              | Some st \<Rightarrow> EContinue (Suc f) (Spawn cr # child_output cr @ report st
                                              @ abs_listing h (cut_first c))))
      else EContinue f (abs_listing h c))"

datatype abs_result =
  AExit int "string list" "event list" | AStuck ub | ABlocked "string list" "event list"
  | ARunning "string list" "event list"

fun abs_loop :: "world \<Rightarrow> string list \<Rightarrow> nat \<Rightarrow> event list \<Rightarrow> string \<Rightarrow> string list \<Rightarrow> abs_result" where
  "abs_loop w h f out c ls =
     (if \<not> ((c \<noteq> ''exit'' \<and> c \<noteq> ''logout'') \<or> (c \<noteq> [] \<and> hd c = NL)) then AExit 0 h out
      else (case abs_exec w f h c of
              EExit1 evs \<Rightarrow> AExit 1 h (out @ evs)
            | EBlock evs \<Rightarrow> ABlocked h (out @ evs)
            | EContinue f' evs \<Rightarrow>
                (case ls of
                   [] \<Rightarrow> ARunning (abs_record h []) (out @ evs @ EOF_EVENTS)
                 | l # ls' \<Rightarrow>
                     (case abs_read h l of
                        Inl e \<Rightarrow> AStuck e
                      | Inr (h', c', evs') \<Rightarrow> abs_loop w h' f' (out @ evs @ evs') c' ls'))))"

definition abs_session :: "world \<Rightarrow> string list \<Rightarrow> abs_result" where
  "abs_session w ls =
     (case ls of
        [] \<Rightarrow> ARunning (abs_record [] []) EOF_EVENTS
      | l # ls' \<Rightarrow> (case abs_read [] l of Inl e \<Rightarrow> AStuck e | Inr (h, c, evs) \<Rightarrow> abs_loop w h 0 evs c ls'))"

section \<open>Observing main\<close>

abbreviation recorded :: "shell \<Rightarrow> string list" where
  "recorded s \<equiv> hist_list (history s) (history_size s)"

fun observe :: "outcome \<Rightarrow> abs_result" where
  "observe (Continue s) = ARunning (recorded s) (shown s)"
| "observe (Exit c s) = AExit c (recorded s) (shown s)"
| "observe (Stuck e) = AStuck e"
| "observe (Blocked s) = ABlocked (recorded s) (shown s)"

definition observe_session :: "ub + outcome \<Rightarrow> abs_result" where
  "observe_session r = (case r of Inl e \<Rightarrow> AStuck e | Inr r' \<Rightarrow> observe r')"

text \<open>The lines the theorem covers: one fgets each, no NUL, fewer than six tokens.\<close>

definition line_wf :: "string \<Rightarrow> bool" where
  "line_wf l \<longleftrightarrow> NL \<notin> set l \<and> NUL \<notin> set l \<and> length l < COMMAND_SIZE - 1 \<and> length (tokens l) < 6"

definition recordable :: "string \<Rightarrow> bool" where
  "recordable x \<longleftrightarrow> line_wf x \<and> x \<noteq> [] \<and> hd x \<noteq> BANG"

section \<open>Lemmas\<close>

lemma ring_record_list_all: "list_all P xs \<Longrightarrow> P c \<Longrightarrow> list_all P (ring_record xs c)"
  by (auto simp: ring_record_def list_all_iff dest: in_set_dropD)

lemma tokens_NL: "tokens [NL] = [[NL]]"
  by (simp add: tokens_def)

lemma cstr_nth0: "0 < length c \<Longrightarrow> c ! 0 = (if cstr c = [] then NUL else hd (cstr c))"
  by (cases c) (simp_all add: cstr_at_def)

lemma cstr_nth_less: "i < length (cstr c) \<Longrightarrow> c ! i = cstr c ! i"
  by (simp add: cstr_at_def takeWhile_nth)

lemma split_sp_cut:
  assumes "NUL \<notin> set s"
  shows "takeWhile (\<lambda>c. c \<noteq> NUL) (fst (split_sp k s)) = cut_first s"
proof -
  define n where "n = length (takeWhile (\<lambda>c. c = SP) s)"
  define s1 where "s1 = drop n s"
  define w where "w = takeWhile (\<lambda>c. c \<noteq> SP) s1"
  define s2 where "s2 = drop (length w) s1"
  have tw: "takeWhile (\<lambda>c. c = SP) s = take n s" unfolding n_def by (rule takeWhile_eq_take)
  have dw: "dropWhile (\<lambda>c. c = SP) s = s1" unfolding s1_def n_def by (rule dropWhile_eq_drop)
  have cut: "cut_first s = take n s @ w" by (simp add: cut_first_def tw dw w_def)
  have dec: "s1 = w @ s2" unfolding w_def s2_def dropWhile_eq_drop [symmetric] by simp
  have sd: "s = take n s @ s1" unfolding s1_def by simp
  have nn: "NUL \<notin> set (take n s @ w)" using assms sd dec
    by (metis Un_iff append.assoc set_append)
  have all: "takeWhile (\<lambda>c. c \<noteq> NUL) s = s" using assms by (auto simp: takeWhile_eq_all_conv)
  show ?thesis
  proof (cases "s1 = []")
    case True
    then show ?thesis using split_sp_unfold [of k s] all cut sd
      by (simp add: n_def s1_def w_def)
  next
    case False
    show ?thesis
    proof (cases "s2 = []")
      case True
      then have "s = take n s @ w" using sd dec by simp
      then show ?thesis using split_sp_unfold [of k s] all cut False True
        by (simp add: n_def s1_def w_def s2_def)
    next
      case c2: False
      obtain s' ts where sp: "split_sp (k + n + length w + 1) (tl s2) = (s', ts)" by fastforce
      have "fst (split_sp k s) = take n s @ w @ NUL # s'"
        using split_sp_unfold [of k s] False c2 sp by (simp add: n_def s1_def w_def s2_def)
      then show ?thesis using nn cut by (simp add: takeWhile_append)
    qed
  qed
qed

lemma abs_record_wf:
  "list_all recordable h \<Longrightarrow> recordable c \<or> (c \<noteq> [] \<and> (hd c = NL \<or> hd c = BANG))
   \<Longrightarrow> list_all recordable (abs_record h c)"
  by (auto simp: abs_record_def recordable_def intro: ring_record_list_all)

lemma recall_number_nonneg: "0 \<le> recall_number c"
  by (simp add: recall_number_def digit_value_def is_digit_def)

lemma recordable_nth:
  "list_all recordable h \<Longrightarrow> 1 \<le> k \<Longrightarrow> k \<le> int (length h) \<Longrightarrow> recordable (h ! (length h - nat k))"
  by (simp add: list_all_length)

lemma abs_read_wf:
  assumes "list_all recordable h" "line_wf l" "abs_read h l = Inr (h', c', evs)"
  shows "list_all recordable h' \<and> length (tokens c') < 6"
proof -
  define c where "c = (if l = [] then [NL] else l)"
  have cw: "length (tokens c) < 6" using assms(2) by (simp add: c_def line_wf_def tokens_NL)
  have cr: "recordable c \<or> (c \<noteq> [] \<and> (hd c = NL \<or> hd c = BANG))"
    using assms(2) by (auto simp: c_def recordable_def)
  show ?thesis
  proof (cases "c \<noteq> [] \<and> hd c = BANG \<and> length c = 2")
    case False
    have "c \<noteq> []" by (simp add: c_def)
    then have "h' = abs_record h c" "c' = c" using assms(3) False by (auto simp: abs_read_def c_def [symmetric])
    then show ?thesis using abs_record_wf [OF assms(1) cr] cw by simp
  next
    case True
    then obtain evs' where r: "abs_recall h c = Inr (c', evs')" and h': "h' = abs_record h c'"
      using assms(3) by (auto simp: abs_read_def c_def [symmetric] split: sum.splits)
    show ?thesis
    proof (cases "int (length h) < recall_number c")
      case True
      then show ?thesis using r h' abs_record_wf [OF assms(1) cr] cw by (simp add: abs_recall_def)
    next
      case False
      then have k: "1 \<le> recall_number c" "recall_number c \<le> int (length h)"
        and c': "c' = h ! (length h - nat (recall_number c))"
        using r recall_number_nonneg [of c] by (auto simp: abs_recall_def Let_def split: if_splits)
      have "recordable c'" using recordable_nth [OF assms(1) k] c' by simp
      then show ?thesis using h' abs_record_wf [OF assms(1)] by (simp add: recordable_def line_wf_def)
    qed
  qed
qed

lemma GetEcho_zero_exact:
  assumes "hist_inv h n" "echo_value cm = 0"
  shows "GetEcho h cm n = Inl (recall_ub n)"
proof -
  have len: "length h = HISTORY_CAPACITY" "n \<le> HISTORY_CAPACITY"
    using assms(1) by (simp_all add: hist_inv_def hist_wf_def)
  show ?thesis
  proof (cases "n < HISTORY_CAPACITY")
    case True
    then have "\<not> is_ptr (h ! n)" using hist_inv_unset [OF assms(1)] len by simp
    then show ?thesis using assms(2) True len by (cases "h ! n") (simp_all add: GetEcho_def recall_ub_def)
  next
    case False
    then show ?thesis using assms(2) len by (simp add: GetEcho_def recall_ub_def)
  qed
qed

lemma record_sim:
  assumes "hist_inv (history s) (history_size s)" "cmd_ok (command s)"
  shows "\<exists>hh nn. record_step s = Inr (s\<lparr>history := hh, history_size := nn\<rparr>) \<and> hist_inv hh nn
           \<and> hist_list hh nn = abs_record (recorded s) (cstr (command s))"
proof -
  have "0 < length (command s)" using assms(2) by (simp add: cmd_ok_def shell_consts)
  then have c0: "command s ! 0 = (if cstr (command s) = [] then NUL else hd (cstr (command s)))"
    by (rule cstr_nth0)
  show ?thesis
  proof (cases "cstr (command s) \<noteq> [] \<and> (hd (cstr (command s)) = NL \<or> hd (cstr (command s)) = BANG)")
    case True
    then have "record_step s = Inr (s\<lparr>history := history s, history_size := history_size s\<rparr>)"
      using c0 by (auto simp: record_step_def)
    then show ?thesis using True assms(1)
      by (intro exI [of _ "history s"] exI [of _ "history_size s"]) (auto simp: abs_record_def)
  next
    case False
    obtain hh nn where a: "AddToHistory (history s) (cstr (command s)) (history_size s) = Inr (hh, nn)"
      "hist_inv hh nn" "hist_list hh nn = ring_record (recorded s) (cstr (command s))"
      using AddToHistory_inv [OF assms(1) line_ok_cstr [OF assms(2)]] by blast
    have "command s ! 0 \<noteq> NL \<and> command s ! 0 \<noteq> BANG" using c0 False by auto
    then have "record_step s = Inr (s\<lparr>history := hh, history_size := nn\<rparr>)"
      using a(1) by (simp add: record_step_def)
    then show ?thesis using a(2,3) False by (auto simp: abs_record_def)
  qed
qed

lemma recall_sim:
  assumes "hist_inv (history s) (history_size s)" "cmd_ok (command s)" "is_recall (command s)"
    and "list_all recordable (recorded s)"
  shows "case abs_recall (recorded s) (cstr (command s)) of
           Inl e \<Rightarrow> recall_step s = Inl e
         | Inr (c', evs) \<Rightarrow> \<exists>cm. recall_step s = Inr (emit evs (s\<lparr>command := cm\<rparr>)) \<and> cmd_ok cm \<and> cstr cm = c'"
proof -
  let ?c = "cstr (command s)" and ?n = "history_size s" and ?h = "recorded s"
  have ln: "length ?h = ?n" using assms(1) length_hist_list by (simp add: hist_inv_def)
  have len: "length (command s) = COMMAND_SIZE" using assms(2) by (simp add: cmd_ok_def)
  have "length ?c = 2" using assms(3) by (simp add: is_recall_def)
  then have c1: "command s ! 1 = ?c ! 1" by (simp add: cstr_nth_less)
  have ev: "echo_value (command s) = recall_number ?c"
    using echo_value_recall_aux [OF assms(3)] c1 by (simp add: recall_number_def)
  show ?thesis
  proof (cases "int ?n < recall_number ?c")
    case True
    then have "GetEcho (history s) (command s) ?n =
        Inr (command s, [Out (''error: there have not been '' @ dec_string (recall_number ?c) @ '' command(s) entered'')])"
      using GetEcho_out_of_range_aux [of ?n "command s" "history s"] ev by simp
    then have "recall_step s = Inr (emit [Out (''error: there have not been '' @ dec_string (recall_number ?c)
                 @ '' command(s) entered'')] (s\<lparr>command := command s\<rparr>))"
      using assms(3) by (simp add: recall_step_def)
    then have "\<exists>cm. recall_step s = Inr (emit [Out (''error: there have not been '' @ dec_string (recall_number ?c)
                 @ '' command(s) entered'')] (s\<lparr>command := cm\<rparr>)) \<and> cmd_ok cm \<and> cstr cm = ?c"
      using assms(2) by (intro exI [of _ "command s"]) simp
    then show ?thesis using True ln by (simp add: abs_recall_def)
  next
    case nlt: False
    show ?thesis
    proof (cases "recall_number ?c = 0")
      case True
      then have "recall_step s = Inl (recall_ub ?n)"
        using GetEcho_zero_exact [OF assms(1)] ev assms(3) by (simp add: recall_step_def)
      then show ?thesis using True ln by (simp add: abs_recall_def)
    next
      case False
      let ?k = "recall_number ?c"
      have k: "1 \<le> echo_value (command s)" "echo_value (command s) \<le> int ?n"
        using False nlt ev recall_number_nonneg [of ?c] by simp_all
      let ?x = "hist_list (history s) ?n ! (?n - nat ?k)"
      have g: "GetEcho (history s) (command s) ?n = Inr (strcpy_buf (command s) ?x, [Out (?x @ [NL]), Sleep 1])"
        using GetEcho_resolves_aux [OF assms(1) len k] ev by simp
      have "recordable ?x" using recordable_nth [OF assms(4), of ?k] k ev ln by simp
      then have x: "NUL \<notin> set ?x" "line_ok ?x" "length ?x < length (command s)"
        using len by (simp_all add: recordable_def line_wf_def line_ok_def shell_consts)
      have "cmd_ok (strcpy_buf (command s) ?x)" using cmd_ok_strcpy [OF assms(2) x(2,3)] .
      moreover have "recall_step s = Inr (emit [Out (?x @ [NL]), Sleep 1] (s\<lparr>command := strcpy_buf (command s) ?x\<rparr>))"
        using g assms(3) by (simp add: recall_step_def)
      ultimately have "\<exists>cm. recall_step s = Inr (emit [Out (?x @ [NL]), Sleep 1] (s\<lparr>command := cm\<rparr>))
                        \<and> cmd_ok cm \<and> cstr cm = ?x"
        using x(1) by (intro exI [of _ "strcpy_buf (command s) ?x"]) simp
      then show ?thesis using nlt False ln by (simp add: abs_recall_def Let_def)
    qed
  qed
qed

lemma read_sim:
  assumes "hist_inv (history s) (history_size s)" "length (command s) = COMMAND_SIZE"
    and "stdin s = l @ NL # rest" "line_wf l" "list_all recordable (recorded s)"
  shows "case abs_read (recorded s) l of
           Inl e \<Rightarrow> read_command s = Inl e
         | Inr (h', c', evs) \<Rightarrow> \<exists>s'. read_command s = Inr s' \<and> recorded s' = h' \<and> cstr (command s') = c'
               \<and> shown s' = shown s @ evs \<and> stdin s' = rest \<and> forks s' = forks s"
proof -
  have l: "NL \<notin> set l" "NUL \<notin> set l" "length l < COMMAND_SIZE - 1"
    using assms(4) by (simp_all add: line_wf_def)
  obtain c1 where gc: "GetCommand (command s) (l @ NL # rest) = (c1, rest, [Out PROMPT])"
    and cs: "cstr c1 = (if l = [] then [NL] else l)"
    using GetCommand_reads_line [OF assms(2) l] by blast
  have ok: "cmd_ok c1" using GetCommand_buffer [OF assms(2) gc] by simp
  define c where "c = (if l = [] then [NL] else l)"
  have cne: "c \<noteq> []" by (simp add: c_def)
  let ?s1 = "emit [Out PROMPT] (s\<lparr>command := c1, stdin := rest\<rparr>)"
  have rc: "read_command s = (case recall_step ?s1 of Inl e \<Rightarrow> Inl e | Inr s' \<Rightarrow> record_step s')"
    using gc assms(3) by (simp add: read_command_def)
  have h1: "hist_inv (history ?s1) (history_size ?s1)" "cmd_ok (command ?s1)"
    "list_all recordable (recorded ?s1)" "cstr (command ?s1) = c"
    using assms(1,5) ok cs by (simp_all add: emit_def c_def)
  have cs': "cstr c1 = c" using cs by (simp add: c_def)
  have "0 < length c1" using ok by (simp add: cmd_ok_def shell_consts)
  then have "c1 ! 0 = hd c" using cstr_nth0 [of c1] cs' cne by simp
  then have ir: "is_recall (command ?s1) \<longleftrightarrow> hd c = BANG \<and> length c = 2"
    using cs by (simp add: is_recall_def emit_def c_def)
  show ?thesis
  proof (cases "hd c = BANG \<and> length c = 2")
    case False
    then have rs: "recall_step ?s1 = Inr ?s1" using ir by (auto simp: recall_step_def)
    obtain hh nn where r: "record_step ?s1 = Inr (?s1\<lparr>history := hh, history_size := nn\<rparr>)"
      "hist_list hh nn = abs_record (recorded s) c"
      using record_sim [OF h1(1,2)] h1(4) by (auto simp: emit_def)
    have "abs_read (recorded s) l = Inr (abs_record (recorded s) c, c, [Out PROMPT])"
      using False cne by (auto simp: abs_read_def c_def [symmetric])
    then show ?thesis using rc rs r assms(3) cs by (simp add: emit_def c_def)
  next
    case True
    note rcl = recall_sim [OF h1(1,2) ir [THEN iffD2, OF True] h1(3)]
    show ?thesis
    proof (cases "abs_recall (recorded s) c")
      case (Inl e)
      then have "recall_step ?s1 = Inl e" using rcl h1(4) by (simp add: emit_def)
      moreover have "abs_read (recorded s) l = Inl e"
        using True cne Inl by (simp add: abs_read_def c_def [symmetric])
      ultimately show ?thesis using rc by simp
    next
      case (Inr r)
      obtain c' evs where r: "r = (c', evs)" by fastforce
      obtain cm where rs: "recall_step ?s1 = Inr (emit evs (?s1\<lparr>command := cm\<rparr>))"
        and cm: "cmd_ok cm" "cstr cm = c'"
        using rcl Inr r h1(4) by (auto simp: emit_def)
      let ?s2 = "emit evs (?s1\<lparr>command := cm\<rparr>)"
      obtain hh nn where rd: "record_step ?s2 = Inr (?s2\<lparr>history := hh, history_size := nn\<rparr>)"
        "hist_list hh nn = abs_record (recorded s) c'"
        using record_sim [of ?s2] assms(1) cm by (auto simp: emit_def)
      have "abs_read (recorded s) l = Inr (abs_record (recorded s) c', c', Out PROMPT # evs)"
        using True cne Inr r by (simp add: abs_read_def c_def [symmetric])
      then show ?thesis using rc rs rd cm assms(3) by (simp add: emit_def)
    qed
  qed
qed

lemma eof_sim:
  assumes "hist_inv (history s) (history_size s)" "length (command s) = COMMAND_SIZE" "stdin s = []"
  shows "\<exists>s'. read_command s = Inr s' \<and> recorded s' = abs_record (recorded s) []
           \<and> shown s' = shown s @ EOF_EVENTS \<and> stdin s' = [] \<and> cstr (command s') = []"
proof -
  obtain c' where gc: "GetCommand (command s) [] = (c', [], EOF_EVENTS)" and cs: "cstr c' = []"
    using GetCommand_eof [OF assms(2)] by (auto simp: EOF_EVENTS_def)
  have ok: "cmd_ok c'" using GetCommand_buffer [OF assms(2) gc] by simp
  let ?s1 = "emit EOF_EVENTS (s\<lparr>command := c', stdin := []\<rparr>)"
  have rs: "recall_step ?s1 = Inr ?s1" using cs by (simp add: recall_step_def is_recall_def emit_def)
  obtain hh nn where r: "record_step ?s1 = Inr (?s1\<lparr>history := hh, history_size := nn\<rparr>)"
    "hist_list hh nn = abs_record (recorded s) []"
    using record_sim [of ?s1] assms(1) ok cs by (auto simp: emit_def)
  show ?thesis using gc rs r assms(3) cs by (simp add: read_command_def emit_def)
qed

lemma history_step_listing:
  "hist_wf (history t) (history_size t) \<Longrightarrow>
   history_step t = Inr (emit (abs_listing (recorded t) (cstr (command t))) t)"
  using PrintHistory_ring_listing [of "history t" "history_size t"]
  by (simp add: history_step_def abs_listing_def emit_def)

lemma parse_cut:
  assumes "shell_inv s" "ParseCommand (command s) (arguments s) = Inr (c', args)"
  shows "cstr c' = cut_first (cstr (command s)) \<and> length c' = COMMAND_SIZE"
proof -
  have len: "length (command s) = COMMAND_SIZE" "length (cstr (command s)) < COMMAND_SIZE"
    using assms(1) by (simp_all add: shell_inv_def cmd_ok_def)
  then have lt: "length (cstr (command s)) < length (command s)" by simp
  obtain c2 offs where "ParseCommand (command s) (arguments s) = Inr (c2, fill_from 0 offs (arguments s))"
    "length c2 = COMMAND_SIZE" using parse_in_shell [OF assms(1)] by blast
  then have l2: "length c' = COMMAND_SIZE" using assms(2) by simp
  have "c' = fst (split_sp 0 (cstr (command s))) @ NUL # drop (Suc (length (cstr (command s)))) (command s)"
    using ParseCommand_eq [OF lt, of "arguments s"] assms(2) by (simp split: if_splits)
  then have "cstr c' = takeWhile (\<lambda>c. c \<noteq> NUL) (fst (split_sp 0 (cstr (command s))))"
    by (simp add: cstr_at_append_prefix)
  then show ?thesis using split_sp_cut [OF cstr_at_no_nul] l2 by simp
qed

lemma ExecuteCommand_abs:
  "argv_of c 0 args = Inr argv \<Longrightarrow> ExecuteCommand fd c args = abs_child \<lparr>found = fd, run_status = rs,
     ub_status = us, fork_result = fr, inherited = ih\<rparr> argv"
  by (cases argv) (simp_all add: ExecuteCommand_def abs_child_def)

lemma exec_sim:
  assumes "shell_inv s" "length (tokens (cstr (command s))) < 6"
  shows "case abs_exec w (forks s) (recorded s) (cstr (command s)) of
      EExit1 evs \<Rightarrow> (\<exists>s1. dispatch w s = Exit 1 s1 \<and> recorded s1 = recorded s \<and> shown s1 = shown s @ evs)
    | EBlock evs \<Rightarrow> (\<exists>s1. dispatch w s = Blocked s1 \<and> recorded s1 = recorded s \<and> shown s1 = shown s @ evs)
    | EContinue f' evs \<Rightarrow> (\<exists>s1 s2. dispatch w s = Continue s1 \<and> history_step s1 = Inr s2
         \<and> history s2 = history s \<and> history_size s2 = history_size s \<and> forks s2 = f'
         \<and> shown s2 = shown s @ evs \<and> stdin s2 = stdin s \<and> length (command s2) = COMMAND_SIZE)"
proof -
  let ?c = "cstr (command s)"
  have len: "length (command s) = COMMAND_SIZE" and hw: "hist_wf (history s) (history_size s)"
    using assms(1) by (simp_all add: shell_inv_def cmd_ok_def hist_inv_def)
  have c0: "command s ! 0 = (if ?c = [] then NUL else hd ?c)"
    using cstr_nth0 [of "command s"] len by (simp add: shell_consts)
  show ?thesis
  proof (cases "(?c = [] \<or> hd ?c \<noteq> NL) \<and> ?c \<noteq> ''history''")
    case False
    then have "dispatch w s = Continue s" using c0 by (auto simp: dispatch_def)
    moreover have "abs_exec w (forks s) (recorded s) ?c = EContinue (forks s) (abs_listing (recorded s) ?c)"
      using False by (auto simp: abs_exec_def)
    ultimately show ?thesis using history_step_listing [OF hw] len by (simp add: emit_def)
  next
    case True
    then have d: "command s ! 0 \<noteq> NL \<and> ?c \<noteq> ''history''" using c0 by auto
    obtain c' args where p: "ParseCommand (command s) (arguments s) = Inr (c', args)"
      and av: "argv_of c' 0 args = Inr (tokens ?c)"
      using parse_argv_in_shell [OF assms(1) refl assms(2)] by blast
    have cut: "cstr c' = cut_first ?c" "length c' = COMMAND_SIZE" using parse_cut [OF assms(1) p] by simp_all
    have ec: "ExecuteCommand (found w) c' args = abs_child w (tokens ?c)"
      using ExecuteCommand_abs [OF av, of "found w"] by (cases w) simp
    let ?s1 = "s\<lparr>command := c', arguments := args, forks := Suc (forks s)\<rparr>"
    have hw1: "hist_wf (history ?s1) (history_size ?s1)" using hw by simp
    show ?thesis
    proof (cases "fork_result w (forks s)")
      case None
      then show ?thesis using d p True by (simp add: dispatch_def abs_exec_def emit_def)
    next
      case (Some q)
      show ?thesis
      proof (cases "child_status w (abs_child w (tokens ?c))")
        case None
        then show ?thesis using d p True Some ec
          by (simp add: dispatch_def abs_exec_def emit_def Let_def wait_answers_def)
      next
        case (Some st)
        let ?cr = "abs_child w (tokens ?c)"
        let ?s2 = "emit (Spawn ?cr # child_output ?cr @ report st) ?s1"
        have dc: "dispatch w s = Continue ?s2"
          using d p \<open>fork_result w (forks s) = Some q\<close> ec Some
          by (simp add: dispatch_def Let_def wait_answers_def)
        have hs: "history_step ?s2 = Inr (emit (abs_listing (recorded s) (cut_first ?c)) ?s2)"
          using history_step_listing [of ?s2] hw1 cut by (simp add: emit_def)
        have "abs_exec w (forks s) (recorded s) ?c = EContinue (Suc (forks s))
                (Spawn ?cr # child_output ?cr @ report st @ abs_listing (recorded s) (cut_first ?c))"
          using True \<open>fork_result w (forks s) = Some q\<close> Some by (simp add: abs_exec_def Let_def)
        then show ?thesis using dc hs cut by (simp add: emit_def)
      qed
    qed
  qed
qed

lemma loop_cond_abs:
  assumes "shell_inv s"
  shows "loop_cond s \<longleftrightarrow> (cstr (command s) \<noteq> ''exit'' \<and> cstr (command s) \<noteq> ''logout'')
                          \<or> (cstr (command s) \<noteq> [] \<and> hd (cstr (command s)) = NL)"
proof -
  have "0 < length (command s)" using assms by (simp add: shell_inv_def cmd_ok_def shell_consts)
  then show ?thesis using cstr_nth0 [of "command s"] by (auto simp: loop_cond_def CheckForContinue_def)
qed

lemma step_sim:
  assumes "shell_inv s" "length (tokens (cstr (command s))) < 6" "loop_cond s"
  shows "case abs_exec w (forks s) (recorded s) (cstr (command s)) of
      EExit1 evs \<Rightarrow> (\<exists>s1. step w s = Exit 1 s1 \<and> recorded s1 = recorded s \<and> shown s1 = shown s @ evs)
    | EBlock evs \<Rightarrow> (\<exists>s1. step w s = Blocked s1 \<and> recorded s1 = recorded s \<and> shown s1 = shown s @ evs)
    | EContinue f' evs \<Rightarrow> (\<exists>s2. step w s = (case read_command s2 of Inl e \<Rightarrow> Stuck e
            | Inr s3 \<Rightarrow> Continue (s3\<lparr>arguments := memset_ptrs (ARGUMENT_SIZE - 1) (arguments s3)\<rparr>))
         \<and> hist_inv (history s2) (history_size s2) \<and> recorded s2 = recorded s \<and> forks s2 = f'
         \<and> shown s2 = shown s @ evs \<and> stdin s2 = stdin s \<and> length (command s2) = COMMAND_SIZE)"
proof -
  have h: "hist_inv (history s) (history_size s)" using assms(1) by (simp add: shell_inv_def)
  show ?thesis
    using exec_sim [OF assms(1,2), of w] assms(3) h
    by (auto simp: step_def split: exec_end.splits)
qed

lemma loop_stop:
  assumes "shell_inv s" "length (tokens (cstr (command s))) < 6"
    and "\<not> loop_cond s \<or> (\<forall>f' evs. abs_exec w (forks s) (recorded s) (cstr (command s)) \<noteq> EContinue f' evs)"
  shows "observe (run w (Suc n) s) = abs_loop w (recorded s) (forks s) (shown s) (cstr (command s)) ls"
proof (cases "loop_cond s")
  case False
  then have "step w s = Exit 0 s" by (simp add: step_def)
  then show ?thesis using False loop_cond_abs [OF assms(1)] by simp
next
  case True
  note st = step_sim [OF assms(1,2) True, of w]
  show ?thesis
  proof (cases "abs_exec w (forks s) (recorded s) (cstr (command s))")
    case (EContinue f' evs)
    then show ?thesis using assms(3) True by simp
  next
    case (EExit1 evs)
    then show ?thesis using st True loop_cond_abs [OF assms(1)] by auto
  next
    case (EBlock evs)
    then show ?thesis using st True loop_cond_abs [OF assms(1)] by auto
  qed
qed

lemma loop_sim:
  assumes "shell_inv s" "list_all recordable (recorded s)" "length (tokens (cstr (command s))) < 6"
    and "stdin s = concat (map (\<lambda>l. l @ [NL]) ls)" "list_all line_wf ls"
  shows "observe (run w (Suc (length ls)) s) = abs_loop w (recorded s) (forks s) (shown s) (cstr (command s)) ls"
  using assms
proof (induction ls arbitrary: s)
  case Nil
  show ?case
  proof (cases "loop_cond s \<and> (\<exists>f' evs. abs_exec w (forks s) (recorded s) (cstr (command s)) = EContinue f' evs)")
    case False
    then show ?thesis using loop_stop [OF Nil.prems(1,3)] by blast
  next
    case True
    then obtain f' evs where lc: "loop_cond s" and ex: "abs_exec w (forks s) (recorded s) (cstr (command s)) = EContinue f' evs"
      by blast
    obtain s2 where st: "step w s = (case read_command s2 of Inl e \<Rightarrow> Stuck e
            | Inr s3 \<Rightarrow> Continue (s3\<lparr>arguments := memset_ptrs (ARGUMENT_SIZE - 1) (arguments s3)\<rparr>))"
      and s2: "hist_inv (history s2) (history_size s2)" "recorded s2 = recorded s" "shown s2 = shown s @ evs"
        "stdin s2 = stdin s" "length (command s2) = COMMAND_SIZE"
      using step_sim [OF Nil.prems(1,3) lc, of w] ex by auto
    obtain s3 where rc: "read_command s2 = Inr s3" and s3: "recorded s3 = abs_record (recorded s2) []"
      "shown s3 = shown s2 @ EOF_EVENTS"
      using eof_sim [OF s2(1,5)] s2(4) Nil.prems(4) by auto
    show ?thesis using st rc s3 s2 lc ex loop_cond_abs [OF Nil.prems(1)] by simp
  qed
next
  case (Cons l ls)
  show ?case
  proof (cases "loop_cond s \<and> (\<exists>f' evs. abs_exec w (forks s) (recorded s) (cstr (command s)) = EContinue f' evs)")
    case False
    then show ?thesis using loop_stop [OF Cons.prems(1,3)] by blast
  next
    case True
    then obtain f' evs where lc: "loop_cond s" and ex: "abs_exec w (forks s) (recorded s) (cstr (command s)) = EContinue f' evs"
      by blast
    obtain s2 where st: "step w s = (case read_command s2 of Inl e \<Rightarrow> Stuck e
            | Inr s3 \<Rightarrow> Continue (s3\<lparr>arguments := memset_ptrs (ARGUMENT_SIZE - 1) (arguments s3)\<rparr>))"
      and s2: "hist_inv (history s2) (history_size s2)" "recorded s2 = recorded s" "forks s2 = f'"
        "shown s2 = shown s @ evs" "stdin s2 = stdin s" "length (command s2) = COMMAND_SIZE"
      using step_sim [OF Cons.prems(1,3) lc, of w] ex by auto
    have l: "line_wf l" and ls: "list_all line_wf ls" using Cons.prems(5) by simp_all
    have in2: "stdin s2 = l @ NL # concat (map (\<lambda>l. l @ [NL]) ls)" using s2(5) Cons.prems(4) by simp
    note rd = read_sim [OF s2(1,6) in2 l] Cons.prems(2) s2(2)
    have lo: "abs_loop w (recorded s) (forks s) (shown s) (cstr (command s)) (l # ls) =
                (case abs_read (recorded s) l of Inl e \<Rightarrow> AStuck e
                 | Inr (h', c', evs') \<Rightarrow> abs_loop w h' f' (shown s @ evs @ evs') c' ls)"
      using lc ex loop_cond_abs [OF Cons.prems(1)] by simp
    show ?thesis
    proof (cases "abs_read (recorded s) l")
      case (Inl e)
      then show ?thesis using rd st lo by simp
    next
      case (Inr r)
      obtain h' c' evs' where r: "r = (h', c', evs')" by (cases r) auto
      obtain s3 where rc: "read_command s2 = Inr s3" and s3: "recorded s3 = h'" "cstr (command s3) = c'"
        "shown s3 = shown s2 @ evs'" "stdin s3 = concat (map (\<lambda>l. l @ [NL]) ls)" "forks s3 = forks s2"
        using rd Inr r by auto
      let ?s' = "s3\<lparr>arguments := memset_ptrs (ARGUMENT_SIZE - 1) (arguments s3)\<rparr>"
      have st': "step w s = Continue ?s'" using st rc by simp
      have inv: "shell_inv ?s'" using step_Continue [OF Cons.prems(1) st'] .
      have wf: "list_all recordable h' \<and> length (tokens c') < 6"
        using abs_read_wf [OF Cons.prems(2) l] Inr r by simp
      have "observe (run w (Suc (length ls)) ?s') = abs_loop w h' f' (shown s @ evs @ evs') c' ls"
        using Cons.IH [OF inv] wf s3 s2 ls by simp
      then show ?thesis using st' lo Inr r by simp
    qed
  qed
qed

lemma shell_init_sim:
  assumes "length command0 = COMMAND_SIZE"
  shows "hist_inv (history (shell_init w command0 inp)) (history_size (shell_init w command0 inp))
    \<and> length (command (shell_init w command0 inp)) = COMMAND_SIZE
    \<and> recorded (shell_init w command0 inp) = [] \<and> shown (shell_init w command0 inp) = []
    \<and> forks (shell_init w command0 inp) = 0 \<and> stdin (shell_init w command0 inp) = inp"
  using shell_init_inv [OF assms] by (simp add: shell_init_def hist_list_init)

lemma eof_iter:
  assumes "shell_inv s" "stdin s = []" "cstr (command s) = []"
    and "fork_result w (forks s) \<noteq> None" "ub_status w ExecNullFile \<noteq> None"
  shows "\<exists>s'. step w s = Continue s' \<and> stdin s' = [] \<and> cstr (command s') = []
           \<and> recorded s' = ring_record (recorded s) []"
proof -
  have t: "length (tokens (cstr (command s))) < 6" using assms(3) by (simp add: tokens_def)
  have lc: "loop_cond s" using loop_cond_abs [OF assms(1)] assms(3) by simp
  obtain f' evs where ex: "abs_exec w (forks s) (recorded s) (cstr (command s)) = EContinue f' evs"
    using assms(3,4,5) by (auto simp: abs_exec_def abs_child_def child_status_def tokens_def Let_def)
  obtain s2 where st: "step w s = (case read_command s2 of Inl e \<Rightarrow> Stuck e
            | Inr s3 \<Rightarrow> Continue (s3\<lparr>arguments := memset_ptrs (ARGUMENT_SIZE - 1) (arguments s3)\<rparr>))"
    and s2: "hist_inv (history s2) (history_size s2)" "recorded s2 = recorded s"
      "stdin s2 = stdin s" "length (command s2) = COMMAND_SIZE"
    using step_sim [OF assms(1) t lc, of w] ex by auto
  obtain s3 where "read_command s2 = Inr s3" "recorded s3 = abs_record (recorded s2) []"
    "stdin s3 = []" "cstr (command s3) = []"
    using eof_sim [OF s2(1,4)] s2(3) assms(2) by auto
  then show ?thesis using st s2(2) by (simp add: abs_record_def)
qed

lemma session_observed:
  assumes "length command0 = COMMAND_SIZE" "list_all line_wf ls"
  shows "observe_session (session w command0 (concat (map (\<lambda>l. l @ [NL]) ls)) (length ls))
           = abs_session w ls"
proof (cases ls)
  case Nil
  obtain s' where rc: "read_command (shell_init w command0 []) = Inr s'"
    and s': "recorded s' = abs_record [] []" "shown s' = EOF_EVENTS"
    using eof_sim [of "shell_init w command0 []"] shell_init_sim [OF assms(1), of w "[]"] by auto
  then show ?thesis using Nil
    by (simp add: session_def main_start_def observe_session_def abs_session_def)
next
  case (Cons l ls')
  let ?inp = "concat (map (\<lambda>l. l @ [NL]) ls)"
  let ?s0 = "shell_init w command0 ?inp"
  have i0: "hist_inv (history ?s0) (history_size ?s0)" "length (command ?s0) = COMMAND_SIZE"
    "recorded ?s0 = []" "shown ?s0 = []" "forks ?s0 = 0"
    "stdin ?s0 = l @ NL # concat (map (\<lambda>l. l @ [NL]) ls')"
    using shell_init_sim [OF assms(1), of w ?inp] Cons by simp_all
  have l: "line_wf l" and ls': "list_all line_wf ls'" using assms(2) Cons by simp_all
  note rd = read_sim [OF i0(1,2,6) l] i0(3)
  show ?thesis
  proof (cases "abs_read [] l")
    case (Inl e)
    then show ?thesis using rd Cons
      by (simp add: session_def main_start_def observe_session_def abs_session_def)
  next
    case (Inr r)
    obtain h c evs where r: "r = (h, c, evs)" by (cases r) auto
    obtain s1 where rc: "read_command ?s0 = Inr s1" and s1: "recorded s1 = h" "cstr (command s1) = c"
      "shown s1 = evs" "stdin s1 = concat (map (\<lambda>l. l @ [NL]) ls')" "forks s1 = 0"
      using rd Inr r i0 by auto
    have inv: "shell_inv s1" using main_start_Inr [OF assms(1)] rc by (simp add: main_start_def)
    have wf: "list_all recordable h \<and> length (tokens c) < 6" using abs_read_wf [of "[]" l] l Inr r by simp
    have "observe (run w (Suc (length ls')) s1) = abs_loop w h 0 evs c ls'"
      using loop_sim [OF inv _ _ s1(4) ls', of w] wf s1 by simp
    then show ?thesis using rc Cons Inr r
      by (simp add: session_def main_start_def observe_session_def abs_session_def)
  qed
qed

text \<open>C11: main refines the command-level machine: on every input made of well-formed
  lines, in every world, the outcome of main after one loop iteration per line (exit
  status, undefined behaviour, a wait that never returns, or the loop still running
  at the end of the input), the recorded lines and every event shown are those the
  machine predicts.\<close>

theorem session_refines_machine:
  assumes "length command0 = COMMAND_SIZE" "list_all line_wf ls"
  shows "observe_session (session w command0 (concat (map (\<lambda>l. l @ [NL]) ls)) (length ls))
           = abs_session w ls"
  using session_observed [OF assms] .

text \<open>C12: at the end of the input the shell records the empty command on every
  iteration: GetCommand leaves \<open>command[0] == '\0'\<close>, which passes the test of line
  106, so AddToHistory stores an empty line each time round the loop, and after ten
  iterations every line the user entered has been evicted.\<close>

theorem eof_wipes_history:
  assumes "reachable w s" "stdin s = []" "cstr (command s) = []"
    and "\<forall>n. fork_result w n \<noteq> None" "ub_status w ExecNullFile \<noteq> None"
  shows "\<exists>s'. run w k s = Continue s' \<and> recorded s' = foldl ring_record (recorded s) (replicate k [])"
  using assms
proof (induction k arbitrary: s)
  case 0
  then show ?case by simp
next
  case (Suc k)
  have fk: "fork_result w (forks s) \<noteq> None" using Suc.prems(4) by blast
  obtain s' where st: "step w s = Continue s'" and s': "stdin s' = []" "cstr (command s') = []"
    "recorded s' = ring_record (recorded s) []"
    using eof_iter [OF reachable_shell_inv [OF Suc.prems(1)] Suc.prems(2,3) fk Suc.prems(5)] by blast
  have "reachable w s'" using Suc.prems(1) st by (rule reachable.iter)
  from Suc.IH [OF this s'(1,2) Suc.prems(4,5)] st s'(3) show ?case by auto
qed

theorem session_refines_machine_witness:
  "length (replicate 100 NUL) = COMMAND_SIZE \<and>
   list_all line_wf [''ls'', ''pwd'', ''!!'', ''history'', ''exit''] \<and>
   observe_session (session demo_world (replicate 100 NUL)
       (concat (map (\<lambda>l. l @ [NL]) [''ls'', ''pwd'', ''!!'', ''history'', ''exit'']))
       (length [''ls'', ''pwd'', ''!!'', ''history'', ''exit'']))
     = abs_session demo_world [''ls'', ''pwd'', ''!!'', ''history'', ''exit''] \<and>
   (case abs_session demo_world [''ls'', ''pwd'', ''!!'', ''history'', ''exit''] of
      AExit c h _ \<Rightarrow> c = 0 \<and> h = [''ls'', ''pwd'', ''pwd'', ''history'', ''exit''] | _ \<Rightarrow> False)"
proof -
  have c: "length (replicate 100 NUL) = COMMAND_SIZE" by (simp add: shell_consts)
  have l: "list_all line_wf [''ls'', ''pwd'', ''!!'', ''history'', ''exit'']"
    by (simp add: line_wf_def tokens_def shell_consts)
  have a: "case abs_session demo_world [''ls'', ''pwd'', ''!!'', ''history'', ''exit''] of
      AExit c h _ \<Rightarrow> c = 0 \<and> h = [''ls'', ''pwd'', ''pwd'', ''history'', ''exit''] | _ \<Rightarrow> False"
    by code_simp
  show ?thesis using session_refines_machine [OF c l, of demo_world] c l a by blast
qed

theorem eof_wipes_history_witness:
  "\<exists>s. main_start demo_world (replicate 100 NUL) (''ls'' @ [NL]) = Inr s \<and>
     (\<exists>s1. step demo_world s = Continue s1 \<and> recorded s1 = [''ls'', []] \<and>
        (\<exists>s'. run demo_world 10 s1 = Continue s' \<and> recorded s' = replicate 10 []))"
proof -
  have "case main_start demo_world (replicate 100 NUL) (''ls'' @ [NL]) of Inl _ \<Rightarrow> False
          | Inr s \<Rightarrow> (case step demo_world s of Continue s1 \<Rightarrow>
               stdin s1 = [] \<and> cstr (command s1) = [] \<and> recorded s1 = [''ls'', []] | _ \<Rightarrow> False)"
    by code_simp
  then obtain s s1 where m: "main_start demo_world (replicate 100 NUL) (''ls'' @ [NL]) = Inr s"
    and st: "step demo_world s = Continue s1"
    and e: "stdin s1 = []" "cstr (command s1) = []" "recorded s1 = [''ls'', []]"
    by (auto split: sum.splits outcome.splits)
  have "reachable demo_world s" by (rule reachable.start [OF _ m]) (simp add: shell_consts)
  then have r: "reachable demo_world s1" using st by (rule reachable.iter)
  have w: "\<forall>n. fork_result demo_world n \<noteq> None" "ub_status demo_world ExecNullFile \<noteq> None"
    by (simp_all add: demo_world_def)
  have f: "foldl ring_record [''ls'', []] (replicate 10 []) = replicate 10 []"
    by (simp add: ring_record_def shell_consts numeral_eq_Suc)
  show ?thesis using eof_wipes_history [OF r e(1,2) w, of 10] m st e(3) f by auto
qed

end
