(* ===== verification/Replay.thy ===== *)
theory Replay
  imports Machine
begin

text \<open>
  What a session of commands runs, in order. \<open>spawns\<close> projects the events main
  shows onto the children it forks; \<open>bang_resolve\<close> is the user's reading of a
  session in which \<^verbatim>\<open>!!\<close> repeats the command before it. The theorems of this
  theory carry two properties of the command-level machine over to main through the
  refinement of \<open>Machine\<close>: each line forks exactly one child, in the order typed,
  with \<^verbatim>\<open>!!\<close> re-running the previous command, and the history at exit is the
  bounded FIFO of the commands so resolved.
\<close>

section \<open>Sessions of commands and repeats\<close>

definition spawns :: "event list \<Rightarrow> child_run list" where
  "spawns evs = concat (map (\<lambda>e. case e of Spawn cr \<Rightarrow> [cr] | _ \<Rightarrow> []) evs)"

fun bang_resolve :: "string option \<Rightarrow> string list \<Rightarrow> string list" where
  "bang_resolve p [] = []"
| "bang_resolve p (l # ls) =
     (if l = ''!!'' then (case p of None \<Rightarrow> l # bang_resolve None ls | Some x \<Rightarrow> x # bang_resolve (Some x) ls)
      else l # bang_resolve (Some l) ls)"

definition plain_cmd :: "string \<Rightarrow> bool" where
  "plain_cmd l \<longleftrightarrow> line_wf l \<and> l \<noteq> [] \<and> hd l \<noteq> BANG \<and> l \<noteq> ''exit'' \<and> l \<noteq> ''logout'' \<and> l \<noteq> ''history''"

definition replay_line :: "string \<Rightarrow> bool" where
  "replay_line l \<longleftrightarrow> plain_cmd l \<or> l = ''!!''"

section \<open>Lemmas\<close>

text \<open>\<open>abs_loop\<close> is unfolded one iteration at a time below.\<close>

declare abs_loop.simps [simp del]

lemma abs_loop_exit: "abs_loop w h f out ''exit'' ls = AExit 0 h out"
  by (subst abs_loop.simps) simp

lemma spawns_append [simp]: "spawns (xs @ ys) = spawns xs @ spawns ys"
  by (simp add: spawns_def)

lemma spawns_simps [simp]:
  "spawns [] = []" "spawns (Spawn cr # evs) = cr # spawns evs"
  "spawns (Out s # evs) = spawns evs" "spawns (Perror s # evs) = spawns evs" "spawns (Sleep n # evs) = spawns evs"
  by (simp_all add: spawns_def)

lemma spawns_ring_listing [simp]: "spawns (ring_listing k xs) = []"
  by (induction xs arbitrary: k) simp_all

lemma spawns_quiet [simp]:
  "spawns (child_output cr) = []" "spawns (report st) = []"
  "spawns (abs_listing h c) = []" "spawns EOF_EVENTS = []"
proof -
  show "spawns (child_output cr) = []" by (cases cr) (simp_all add: child_output_def)
  show "spawns (report st) = []" by (simp add: report_def)
  show "spawns (abs_listing h c) = []" by (simp add: abs_listing_def)
  show "spawns EOF_EVENTS = []" by (simp add: EOF_EVENTS_def)
qed

lemma plain_cmd_hd: "plain_cmd l \<Longrightarrow> l \<noteq> [] \<and> hd l \<noteq> NL \<and> hd l \<noteq> BANG"
proof -
  assume p: "plain_cmd l"
  then have "l \<noteq> []" "NL \<notin> set l" by (simp_all add: plain_cmd_def line_wf_def)
  then have "hd l \<noteq> NL" by (metis hd_in_set)
  then show ?thesis using p by (simp add: plain_cmd_def)
qed

lemma foldl_abs_record:
  "list_all replay_line xs \<Longrightarrow> foldl abs_record h xs = foldl ring_record h (filter (\<lambda>x. x \<noteq> ''!!'') xs)"
  by (induction xs arbitrary: h) (auto simp: replay_line_def abs_record_def dest: plain_cmd_hd)

lemma abs_read_plain: "plain_cmd l \<Longrightarrow> abs_read h l = Inr (ring_record h l, l, [Out PROMPT])"
  using plain_cmd_hd [of l] by (simp add: abs_read_def abs_record_def)

lemma abs_read_bang_none:
  "\<exists>evs. abs_read [] ''!!'' = Inr ([], ''!!'', evs) \<and> spawns evs = []"
  by (simp add: abs_read_def abs_recall_def recall_number_def abs_record_def)

lemma abs_read_bang_some:
  assumes "h \<noteq> []" "plain_cmd (last h)"
  shows "\<exists>evs. abs_read h ''!!'' = Inr (ring_record h (last h), last h, evs) \<and> spawns evs = []"
proof -
  have n: "recall_number ''!!'' = 1" by (simp add: recall_number_def)
  have x: "h ! (length h - nat 1) = last h" using assms(1) by (simp add: last_conv_nth)
  have "abs_recall h ''!!'' = Inr (last h, [Out (last h @ [NL]), Sleep 1])"
    using assms(1) n x unfolding abs_recall_def Let_def by simp
  moreover have "abs_record h (last h) = ring_record h (last h)"
    using plain_cmd_hd [OF assms(2)] by (simp add: abs_record_def)
  ultimately have "abs_read h ''!!'' = Inr (ring_record h (last h), last h, [Out PROMPT, Out (last h @ [NL]), Sleep 1])"
    unfolding abs_read_def Let_def by simp
  then show ?thesis by simp
qed

lemma replay_cmd_facts:
  assumes "c = ''!!'' \<or> plain_cmd c"
  shows "c \<noteq> [] \<and> hd c \<noteq> NL" "c \<noteq> ''history''" "c \<noteq> ''exit''" "c \<noteq> ''logout''"
proof -
  have "(c \<noteq> [] \<and> hd c \<noteq> NL) \<and> c \<noteq> ''history'' \<and> c \<noteq> ''exit'' \<and> c \<noteq> ''logout''"
  proof (cases "c = ''!!''")
    case True
    then show ?thesis by simp
  next
    case False
    then have p: "plain_cmd c" using assms by simp
    then have "c \<noteq> [] \<and> hd c \<noteq> NL" using plain_cmd_hd by blast
    moreover have "c \<noteq> ''history'' \<and> c \<noteq> ''exit'' \<and> c \<noteq> ''logout''"
      using p unfolding plain_cmd_def by blast
    ultimately show ?thesis by blast
  qed
  then show "c \<noteq> [] \<and> hd c \<noteq> NL" "c \<noteq> ''history''" "c \<noteq> ''exit''" "c \<noteq> ''logout''" by simp_all
qed

lemma abs_loop_step:
  assumes "\<forall>n. fork_result w n \<noteq> None" "\<forall>a. run_status w a \<noteq> None" "\<forall>e. ub_status w e \<noteq> None"
    and "c = ''!!'' \<or> plain_cmd c"
  shows "\<exists>f' evs. abs_loop w h f out c (l # ls) =
            (case abs_read h l of Inl e \<Rightarrow> AStuck e
             | Inr (h', c', evs') \<Rightarrow> abs_loop w h' f' (out @ evs @ evs') c' ls)
          \<and> spawns evs = [abs_child w (tokens c)]"
proof -
  have c: "c \<noteq> [] \<and> hd c \<noteq> NL" "c \<noteq> ''history''" "c \<noteq> ''exit''" "c \<noteq> ''logout''"
    using replay_cmd_facts [OF assms(4)] by simp_all
  obtain q where q: "fork_result w f = Some q" using assms(1) by blast
  obtain st where st: "child_status w (abs_child w (tokens c)) = Some st"
    using child_status_total [OF assms(2,3)] by blast
  let ?evs = "Spawn (abs_child w (tokens c)) # child_output (abs_child w (tokens c)) @ report st
              @ abs_listing h (cut_first c)"
  have "abs_exec w f h c = EContinue (Suc f) ?evs" using c q st by (simp add: abs_exec_def Let_def)
  then have "abs_loop w h f out c (l # ls) =
            (case abs_read h l of Inl e \<Rightarrow> AStuck e
             | Inr (h', c', evs') \<Rightarrow> abs_loop w h' (Suc f) (out @ ?evs @ evs') c' ls)"
    using c abs_loop.simps [of w h f out c "l # ls"] by simp
  moreover have "spawns ?evs = [abs_child w (tokens c)]" by simp
  ultimately show ?thesis by blast
qed

lemma abs_read_exit: "abs_read h ''exit'' = Inr (ring_record h ''exit'', ''exit'', [Out PROMPT])"
  by (simp add: abs_read_def abs_record_def Let_def)

lemma replay_inv_record:
  "plain_cmd x \<Longrightarrow> (ring_record h x = [] \<and> Some x = None)
     \<or> (ring_record h x \<noteq> [] \<and> Some x = Some (last (ring_record h x)) \<and> plain_cmd (last (ring_record h x)))"
  using ring_record_last [of h x] by simp

lemma abs_loop_replay:
  assumes w: "\<forall>n. fork_result w n \<noteq> None" "\<forall>a. run_status w a \<noteq> None" "\<forall>e. ub_status w e \<noteq> None"
    and "c = ''!!'' \<or> plain_cmd c"
    and "(h = [] \<and> p = None) \<or> (h \<noteq> [] \<and> p = Some (last h) \<and> plain_cmd (last h))"
    and "list_all replay_line ls"
  shows "\<exists>evs. abs_loop w h f out c (ls @ [''exit''])
                = AExit 0 (foldl abs_record h (bang_resolve p ls @ [''exit''])) (out @ evs)
              \<and> spawns evs = map (\<lambda>x. abs_child w (tokens x)) (c # bang_resolve p ls)"
  using assms(4-6)
proof (induction ls arbitrary: h f out c p)
  case Nil
  obtain f' evs where st: "abs_loop w h f out c (''exit'' # []) =
            (case abs_read h ''exit'' of Inl e \<Rightarrow> AStuck e
             | Inr (h', c', evs') \<Rightarrow> abs_loop w h' f' (out @ evs @ evs') c' [])"
    and sp: "spawns evs = [abs_child w (tokens c)]"
    using abs_loop_step [OF w Nil.prems(1)] by blast
  have "abs_loop w h f out c ([] @ [''exit'']) = AExit 0 (ring_record h ''exit'') (out @ evs @ [Out PROMPT])"
    using st abs_read_exit [of h] by (simp add: abs_loop_exit)
  then show ?case using sp by (intro exI [of _ "evs @ [Out PROMPT]"]) (simp add: abs_record_def)
next
  case (Cons l ls)
  obtain f' evs where u: "abs_loop w h f out c (l # (ls @ [''exit''])) =
            (case abs_read h l of Inl e \<Rightarrow> AStuck e
             | Inr (h', c', evs') \<Rightarrow> abs_loop w h' f' (out @ evs @ evs') c' (ls @ [''exit'']))"
    and sp: "spawns evs = [abs_child w (tokens c)]"
    using abs_loop_step [OF w Cons.prems(1)] by blast
  have ls: "list_all replay_line ls" using Cons.prems(3) by simp
  consider (plain) "plain_cmd l" | (none) "l = ''!!''" "p = None" | (some) x where "l = ''!!''" "p = Some x"
    using Cons.prems(3) by (cases p) (auto simp: replay_line_def)
  then show ?case
  proof cases
    case plain
    have nb: "l \<noteq> ''!!''" using plain_cmd_hd [OF plain] by auto
    obtain evs' where ih: "abs_loop w (ring_record h l) f' (out @ evs @ [Out PROMPT]) l (ls @ [''exit''])
         = AExit 0 (foldl abs_record (ring_record h l) (bang_resolve (Some l) ls @ [''exit'']))
                   ((out @ evs @ [Out PROMPT]) @ evs')"
      "spawns evs' = map (\<lambda>x. abs_child w (tokens x)) (l # bang_resolve (Some l) ls)"
      using Cons.IH [of l "ring_record h l" "Some l" f' "out @ evs @ [Out PROMPT]"]
        plain replay_inv_record [OF plain, of h] ls by blast
    have r: "abs_record h l = ring_record h l" using plain_cmd_hd [OF plain] by (simp add: abs_record_def)
    show ?thesis using u ih sp abs_read_plain [OF plain, of h] nb r
      by (intro exI [of _ "evs @ [Out PROMPT] @ evs'"]) simp
  next
    case none
    then have h: "h = []" using Cons.prems(2) by auto
    obtain evr where rd: "abs_read [] ''!!'' = Inr ([], ''!!'', evr)" "spawns evr = []"
      using abs_read_bang_none by blast
    obtain evs' where ih: "abs_loop w [] f' (out @ evs @ evr) ''!!'' (ls @ [''exit''])
         = AExit 0 (foldl abs_record [] (bang_resolve None ls @ [''exit''])) ((out @ evs @ evr) @ evs')"
      "spawns evs' = map (\<lambda>x. abs_child w (tokens x)) (''!!'' # bang_resolve None ls)"
      using Cons.IH [of "''!!''" "[]" None f' "out @ evs @ evr"] ls by blast
    have r: "abs_record [] ''!!'' = []" by (simp add: abs_record_def)
    show ?thesis using u ih sp rd h none r
      by (intro exI [of _ "evs @ evr @ evs'"]) simp
  next
    case some
    then have h: "h \<noteq> []" "x = last h" "plain_cmd (last h)" using Cons.prems(2) by auto
    obtain evr where rd: "abs_read h ''!!'' = Inr (ring_record h x, x, evr)" "spawns evr = []"
      using abs_read_bang_some [OF h(1,3)] h(2) by blast
    obtain evs' where ih: "abs_loop w (ring_record h x) f' (out @ evs @ evr) x (ls @ [''exit''])
         = AExit 0 (foldl abs_record (ring_record h x) (bang_resolve (Some x) ls @ [''exit'']))
                   ((out @ evs @ evr) @ evs')"
      "spawns evs' = map (\<lambda>x. abs_child w (tokens x)) (x # bang_resolve (Some x) ls)"
      using Cons.IH [of x "ring_record h x" "Some x" f' "out @ evs @ evr"]
        h replay_inv_record [of x h] ls by blast
    have r: "abs_record h x = ring_record h x" using plain_cmd_hd [of x] h by (simp add: abs_record_def)
    show ?thesis using u ih sp rd some r
      by (intro exI [of _ "evs @ evr @ evs'"]) simp
  qed
qed

lemma bang_resolve_replay:
  "list_all replay_line ls \<Longrightarrow> p = None \<or> (\<exists>x. p = Some x \<and> plain_cmd x)
   \<Longrightarrow> list_all replay_line (bang_resolve p ls)"
  by (induction p ls rule: bang_resolve.induct) (auto simp: replay_line_def split: option.splits)

lemma observe_session_AExit:
  "observe_session r = AExit c h evs \<Longrightarrow> \<exists>s'. r = Inr (Exit c s') \<and> recorded s' = h \<and> shown s' = evs"
  by (cases r) (auto simp: observe_session_def elim: observe.elims)

lemma abs_session_replay:
  assumes w: "\<forall>n. fork_result w n \<noteq> None" "\<forall>a. run_status w a \<noteq> None" "\<forall>e. ub_status w e \<noteq> None"
    and "list_all replay_line ls"
  shows "\<exists>evs. abs_session w (ls @ [''exit''])
                = AExit 0 (foldl abs_record [] (bang_resolve None ls @ [''exit''])) evs
              \<and> spawns evs = map (\<lambda>x. abs_child w (tokens x)) (bang_resolve None ls)"
proof (cases ls)
  case Nil
  then show ?thesis using abs_read_exit [of "[]"]
    by (simp add: abs_session_def abs_loop_exit abs_record_def)
next
  case (Cons l ls')
  have ls': "list_all replay_line ls'" using assms(4) Cons by simp
  have "plain_cmd l \<or> l = ''!!''" using assms(4) Cons by (simp add: replay_line_def)
  then show ?thesis
  proof
    assume p: "plain_cmd l"
    have nb: "l \<noteq> ''!!''" using plain_cmd_hd [OF p] by auto
    obtain evs where e: "abs_loop w (ring_record [] l) 0 [Out PROMPT] l (ls' @ [''exit''])
        = AExit 0 (foldl abs_record (ring_record [] l) (bang_resolve (Some l) ls' @ [''exit''])) ([Out PROMPT] @ evs)"
      "spawns evs = map (\<lambda>x. abs_child w (tokens x)) (l # bang_resolve (Some l) ls')"
      using abs_loop_replay [OF w _ replay_inv_record [OF p, of "[]"] ls', of l 0 "[Out PROMPT]"] p by blast
    have r: "abs_record [] l = ring_record [] l" using plain_cmd_hd [OF p] by (simp add: abs_record_def)
    show ?thesis using e Cons abs_read_plain [OF p, of "[]"] nb r
      by (intro exI [of _ "Out PROMPT # evs"]) (simp add: abs_session_def)
  next
    assume b: "l = ''!!''"
    obtain evr where rd: "abs_read [] ''!!'' = Inr ([], ''!!'', evr)" "spawns evr = []"
      using abs_read_bang_none by blast
    obtain evs where e: "abs_loop w [] 0 evr ''!!'' (ls' @ [''exit''])
        = AExit 0 (foldl abs_record [] (bang_resolve None ls' @ [''exit''])) (evr @ evs)"
      "spawns evs = map (\<lambda>x. abs_child w (tokens x)) (''!!'' # bang_resolve None ls')"
      using abs_loop_replay [OF w _ _ ls', of "''!!''" "[]" None 0 evr] by auto
    have r: "abs_record [] ''!!'' = []" by (simp add: abs_record_def)
    show ?thesis using e Cons rd b r
      by (intro exI [of _ "evr @ evs"]) (simp add: abs_session_def)
  qed
qed

lemma line_wf_bang_exit: "line_wf ''!!''" "line_wf ''exit''"
  by (simp_all add: line_wf_def tokens_def shell_consts)

lemma replay_line_wf: "replay_line l \<Longrightarrow> line_wf l"
  using line_wf_bang_exit by (auto simp: replay_line_def plain_cmd_def)

lemma session_replay:
  assumes "length command0 = COMMAND_SIZE" "list_all replay_line ls"
    and w: "\<forall>n. fork_result w n \<noteq> None" "\<forall>a. run_status w a \<noteq> None" "\<forall>e. ub_status w e \<noteq> None"
  shows "\<exists>s'. session w command0 (concat (map (\<lambda>l. l @ [NL]) (ls @ [''exit'']))) (Suc (length ls))
              = Inr (Exit 0 s')
           \<and> spawns (shown s') = map (\<lambda>x. abs_child w (tokens x)) (bang_resolve None ls)
           \<and> recorded s' = foldl ring_record [] (filter (\<lambda>x. x \<noteq> ''!!'') (bang_resolve None ls) @ [''exit''])"
proof -
  have "list_all line_wf ls" using assms(2) replay_line_wf by (simp add: list_all_iff)
  then have lw: "list_all line_wf (ls @ [''exit''])" using line_wf_bang_exit(2) by simp
  obtain evs where a: "abs_session w (ls @ [''exit''])
                = AExit 0 (foldl abs_record [] (bang_resolve None ls @ [''exit''])) evs"
    and sp: "spawns evs = map (\<lambda>x. abs_child w (tokens x)) (bang_resolve None ls)"
    using abs_session_replay [OF w assms(2)] by blast
  have len: "length (ls @ [''exit'']) = Suc (length ls)" by simp
  have "observe_session (session w command0 (concat (map (\<lambda>l. l @ [NL]) (ls @ [''exit'']))) (Suc (length ls)))
          = AExit 0 (foldl abs_record [] (bang_resolve None ls @ [''exit''])) evs"
    using session_observed [OF assms(1) lw, of w] a unfolding len by (rule trans)
  then obtain s' where s': "session w command0 (concat (map (\<lambda>l. l @ [NL]) (ls @ [''exit'']))) (Suc (length ls))
      = Inr (Exit 0 s')" "recorded s' = foldl abs_record [] (bang_resolve None ls @ [''exit''])" "shown s' = evs"
    by (rule observe_session_AExit [elim_format]) blast
  have "list_all replay_line (bang_resolve None ls)" using bang_resolve_replay [OF assms(2)] by simp
  then have "foldl abs_record [] (bang_resolve None ls @ [''exit''])
               = foldl ring_record [] (filter (\<lambda>x. x \<noteq> ''!!'') (bang_resolve None ls) @ [''exit''])"
    using foldl_abs_record by (simp add: abs_record_def)
  with s'(2) have "recorded s' = foldl ring_record [] (filter (\<lambda>x. x \<noteq> ''!!'') (bang_resolve None ls) @ [''exit''])"
    by (rule trans)
  moreover have "spawns (shown s') = map (\<lambda>x. abs_child w (tokens x)) (bang_resolve None ls)"
    unfolding s'(3) by (rule sp)
  ultimately show ?thesis using s'(1) by blast
qed

text \<open>C13: in a session whose lines are commands and \<open>!!\<close> repeats, ended by \<open>exit\<close>,
  main exits with status 0 having forked exactly one child per line, in input order,
  where each \<open>!!\<close> runs the most recent command before it (or the text \<open>!!\<close> itself
  when nothing was entered yet, as GetEcho leaves the line alone then).\<close>

theorem session_spawns_resolved:
  assumes "length command0 = COMMAND_SIZE" "list_all replay_line ls"
    and "\<forall>n. fork_result w n \<noteq> None" "\<forall>a. run_status w a \<noteq> None" "\<forall>e. ub_status w e \<noteq> None"
  shows "\<exists>s'. session w command0 (concat (map (\<lambda>l. l @ [NL]) (ls @ [''exit'']))) (Suc (length ls))
              = Inr (Exit 0 s')
           \<and> spawns (shown s') = map (\<lambda>x. abs_child w (tokens x)) (bang_resolve None ls)"
  using session_replay [OF assms] by blast

text \<open>C14: in the same sessions the history main holds at exit is the ten-line FIFO
  of the resolved commands followed by \<open>exit\<close>: a repeat is recorded again as the
  command it ran, and only a \<open>!!\<close> that recalled nothing is left out.\<close>

theorem session_history_resolved:
  assumes "length command0 = COMMAND_SIZE" "list_all replay_line ls"
    and "\<forall>n. fork_result w n \<noteq> None" "\<forall>a. run_status w a \<noteq> None" "\<forall>e. ub_status w e \<noteq> None"
  shows "\<exists>s'. session w command0 (concat (map (\<lambda>l. l @ [NL]) (ls @ [''exit'']))) (Suc (length ls))
              = Inr (Exit 0 s')
           \<and> recorded s' = foldl ring_record [] (filter (\<lambda>x. x \<noteq> ''!!'') (bang_resolve None ls) @ [''exit''])"
  using session_replay [OF assms] by blast

lemma replay_demo_lines: "list_all replay_line [''!!'', ''ls'', ''!!'', ''pwd'']"
  by (simp add: replay_line_def plain_cmd_def line_wf_def tokens_def shell_consts)

lemma replay_demo_input:
  "concat (map (\<lambda>l. l @ [NL]) ([''!!'', ''ls'', ''!!'', ''pwd''] @ [''exit'']))
     = ''!!'' @ NL # ''ls'' @ NL # ''!!'' @ NL # ''pwd'' @ NL # ''exit'' @ [NL]"
  "Suc (length [''!!'', ''ls'', ''!!'', ''pwd'']) = 5"
  by simp_all

theorem session_spawns_resolved_witness:
  "length (replicate 100 NUL) = COMMAND_SIZE \<and> list_all replay_line [''!!'', ''ls'', ''!!'', ''pwd''] \<and>
   (\<exists>s'. session demo_world (replicate 100 NUL)
           (''!!'' @ NL # ''ls'' @ NL # ''!!'' @ NL # ''pwd'' @ NL # ''exit'' @ [NL]) 5 = Inr (Exit 0 s')
        \<and> spawns (shown s') = [ChildExecFailed [''!!''], ChildExec [''ls''], ChildExec [''ls''], ChildExec [''pwd'']])"
proof -
  have c: "length (replicate 100 NUL) = COMMAND_SIZE" by (simp add: shell_consts)
  have m: "map (\<lambda>x. abs_child demo_world (tokens x)) (bang_resolve None [''!!'', ''ls'', ''!!'', ''pwd''])
             = [ChildExecFailed [''!!''], ChildExec [''ls''], ChildExec [''ls''], ChildExec [''pwd'']]"
    by code_simp
  have e: "\<exists>s'. session demo_world (replicate 100 NUL)
             (concat (map (\<lambda>l. l @ [NL]) ([''!!'', ''ls'', ''!!'', ''pwd''] @ [''exit''])))
             (Suc (length [''!!'', ''ls'', ''!!'', ''pwd''])) = Inr (Exit 0 s')
           \<and> spawns (shown s') = map (\<lambda>x. abs_child demo_world (tokens x)) (bang_resolve None [''!!'', ''ls'', ''!!'', ''pwd''])"
    using session_spawns_resolved [OF c replay_demo_lines, of demo_world] demo_world_total by blast
  show ?thesis using e [unfolded replay_demo_input m] c replay_demo_lines by blast
qed

theorem session_history_resolved_witness:
  "length (replicate 100 NUL) = COMMAND_SIZE \<and> list_all replay_line [''!!'', ''ls'', ''!!'', ''pwd''] \<and>
   (\<exists>s'. session demo_world (replicate 100 NUL)
           (''!!'' @ NL # ''ls'' @ NL # ''!!'' @ NL # ''pwd'' @ NL # ''exit'' @ [NL]) 5 = Inr (Exit 0 s')
        \<and> recorded s' = [''ls'', ''ls'', ''pwd'', ''exit''])"
proof -
  have c: "length (replicate 100 NUL) = COMMAND_SIZE" by (simp add: shell_consts)
  have f: "foldl ring_record [] (filter (\<lambda>x. x \<noteq> ''!!'') (bang_resolve None [''!!'', ''ls'', ''!!'', ''pwd'']) @ [''exit''])
             = [''ls'', ''ls'', ''pwd'', ''exit'']"
    by code_simp
  have e: "\<exists>s'. session demo_world (replicate 100 NUL)
             (concat (map (\<lambda>l. l @ [NL]) ([''!!'', ''ls'', ''!!'', ''pwd''] @ [''exit''])))
             (Suc (length [''!!'', ''ls'', ''!!'', ''pwd''])) = Inr (Exit 0 s')
           \<and> recorded s' = foldl ring_record [] (filter (\<lambda>x. x \<noteq> ''!!'') (bang_resolve None [''!!'', ''ls'', ''!!'', ''pwd'']) @ [''exit''])"
    using session_history_resolved [OF c replay_demo_lines, of demo_world] demo_world_total by blast
  show ?thesis using e [unfolded replay_demo_input f] c replay_demo_lines by blast
qed

end
