(* ===== verification/Spec2Isabelle.thy ===== *)
theory Spec2Isabelle
  imports Replay
begin

text \<open>
  A verification model of DougsShell (src/DougsShell.c, one C file of about 290
  lines): an interactive shell that reads a line, resolves the history recall forms
  \<^verbatim>\<open>!!\<close> and \<^verbatim>\<open>!N\<close>, records the line in a ten-entry history, splits it
  on spaces, forks a child that calls execvp, and waits for the child, until the line
  is \<^verbatim>\<open>exit\<close> or \<^verbatim>\<open>logout\<close>.

  \<^bold>\<open>How the parts interact.\<close> \<open>main\<close> owns four locals: the 100-byte
  \<open>command\<close> buffer, the 50 pointer slots \<open>arguments\<close>, the 10 pointer slots
  \<open>history\<close> and \<open>history_size\<close>. GetCommand fills \<open>command\<close> from standard input;
  GetEcho overwrites it with a recorded line; AddToHistory copies it into a heap block
  of \<open>history\<close>; ParseCommand cuts it in place with strtok and stores pointers into
  it in \<open>arguments\<close>; the child's execvp reads those slots; MonitorChildProcess waits
  for the child; PrintHistory lists \<open>history\<close>.

  \<^bold>\<open>Theories and the code they model.\<close>
  \<^item> \<open>Shell_Prelude\<close>: the constants COMMAND_SIZE, ARGUMENT_SIZE and
    HISTORY_CAPACITY (lines 17--19) and \<open>sizeof(char *) = 8\<close>; C strings as the
    NUL-terminated prefix \<open>cstr_at\<close> of a fixed buffer; strcpy, memset on characters
    and, byte-counted, on pointer arrays (\<open>memset_ptrs\<close>); printf's decimal
    conversion; the pointer slot type \<open>'a ptr\<close> (NULL, indeterminate, valid); the
    undefined behaviours \<open>ub\<close>; the observable events. The libc functions are
    modelled from the C standard.
  \<^item> \<open>History\<close>: heap blocks with their allocated size and contents; AddToHistory
    (lines 216--249) with its shift loop \<open>shift_history\<close> (226--232) and both
    malloc sizes; PrintHistory (253--260); the abstraction \<open>hist_list\<close> to the
    recorded lines, the spec's bounded FIFO \<open>ring_record\<close> and listing
    \<open>ring_listing\<close>, the reference eviction \<open>evict_ref\<close>, and the invariant
    \<open>hist_inv\<close>.
  \<^item> \<open>Recall\<close>: the recall test of lines 62/102 (\<open>is_recall\<close>), atoi (from the C
    standard), the recall number \<open>echo_value\<close> and GetEcho (265--285).
  \<^item> \<open>Input\<close>: fgets (C standard) on the unread input and GetCommand (126--143).
  \<^item> \<open>Tokenizer\<close>: strtok with delimiter space on the buffer with offsets as
    pointers, ParseCommand's loop \<open>parse_loop\<close> (147--160), the argument array after
    the memsets of lines 47/112 (\<open>arguments_init\<close>, \<open>args_ok\<close>) and \<open>argv_of\<close>,
    what execvp reads; the spec's tokenizer \<open>tokens\<close> and its chunk-wise form
    \<open>split_sp\<close>.
  \<^item> \<open>Process\<close>: the status word as a \<open>32 word\<close> with WIFEXITED and WEXITSTATUS,
    ExecuteCommand (164--169), MonitorChildProcess (174--195), and the signal
    dispositions of lines 50--59 with what fork and execve do to them.
  \<^item> \<open>Machine\<close>: the command-level machine the loop implements: \<open>abs_read\<close>
    (GetCommand, the recall \<open>abs_recall\<close>, the recording \<open>abs_record\<close>),
    \<open>abs_exec\<close> (dispatch, fork, wait, listing), \<open>abs_loop\<close> and \<open>abs_session\<close>;
    the observation \<open>observe_session\<close> of main's outcome, and the simulation lemmas
    \<open>read_sim\<close>, \<open>exec_sim\<close>, \<open>step_sim\<close>, \<open>loop_sim\<close> that carry it.
  \<^item> \<open>Replay\<close>: what a whole session runs, read off the machine and carried to
    main by the refinement: the projection \<open>spawns\<close> of the events onto the children
    forked, the spec-level resolution \<open>bang_resolve\<close> of \<^verbatim>\<open>!!\<close> repeats against
    the previous command, and the lines \<open>replay_line\<close> such a session consists of.
  \<^item> \<open>Shell\<close>: the record \<open>shell\<close> of main's locals, the unread input, the number of
    forks and the events shown; the record \<open>world\<close> of what the program does not
    control (execvp's PATH search, the status a program ends with, fork failure);
    \<open>read_command\<close> (lines 61--69 and 100--109), \<open>dispatch\<close> (75--92),
    \<open>history_step\<close> (93--97), one loop iteration \<open>step\<close> (72--116),
    CheckForContinue (199--211), \<open>main_start\<close>, \<open>run\<close> and \<open>session\<close> for main as a
    whole, the inductive set \<open>reachable\<close> of loop-head states, and \<open>simple_line\<close>, the
    lines read as a command of their own without a recall.

  \<^bold>\<open>What the lemmas show.\<close> main refines the command-level machine on every
  input of well-formed lines in every world: outcome, history and every event (C11).
  Through it, a session of commands and \<^verbatim>\<open>!!\<close> repeats ended by \<^verbatim>\<open>exit\<close>
  forks one child per line in input order, each repeat running the command before it
  (C13), and leaves the FIFO of the resolved commands as its history (C14).
  AddToHistory refines the spec's bounded FIFO and PrintHistory prints its listing
  (C1, C5); the shift loop equals a whole-array eviction \<open>evict_ref\<close> (C9);
  ParseCommand equals the spec's tokenizer and never overflows the slots (C2); the
  loop invariant holds in every reachable state (C3); GetEcho's outcomes (C4, C23,
  C24, C25) and the round trip record then \<^verbatim>\<open>!!\<close> (C10); the wait loop waits for
  its own child and returns (C6, C20); main terminates on simple lines followed by
  \<^verbatim>\<open>exit\<close>, and the history it then holds is the spec's FIFO over the lines typed
  (C7, C8); a command is launched with exactly its tokens (C15), a line without
  tokens still forks a child that calls \<open>execvp(NULL, ...)\<close> (C18), and a failed
  fork exits with 1 (C19); the command at the loop head is always the newest history
  line (C16), so \<^verbatim>\<open>history\<close> lists itself (C17); at end of input the loop never
  ends (C21) and records an empty line each time round, wiping the history (C12);
  GetCommand always leaves one terminated line (C22) and its line handling (C32,
  C33); argument vectors of six tokens or more are undefined (C26, C27); every
  history block allocated before the history is full is two bytes short (C28), and so
  is every line the shift loop moves once it is full (C29), a heap overflow the model
  states but does not count as undefined behaviour of the shell; the exit-status
  report is inverted (C30, C31); children inherit the ignored signals (C34).

  \<^bold>\<open>Bounds and fuel.\<close> \<open>run\<close> takes the number of loop iterations as fuel and
  returns \<open>Continue\<close> when it runs out, so the claim that the shell keeps running
  (C21) is stated for every amount of fuel, and the claim that it terminates (C7) for
  the exact fuel it needs: one iteration per line after the first read, which is
  \<open>length ls + 1\<close> for the lines \<open>ls\<close> and the \<^verbatim>\<open>exit\<close> line. The strtok loop
  terminates by a measure on the scan offset, the shift loop by \<open>n - i\<close>,
  \<open>split_sp\<close> by the length of the rest, and MonitorChildProcess recurses on the list
  of the kernel's answers to wait: a list without the child's pid gives \<open>None\<close>, a
  shell blocked for ever. The token bound \<open>(n + 1) div 2\<close> for an n-character line
  gives at most 50 tokens for the 99 characters fgets reads, which is why ParseCommand
  never overflows its 50 slots. The refinement (C11) runs main for \<open>length ls\<close>
  iterations, one per line after the first read: enough to read every line, so a run
  that has not stopped has just read the end of the input, which the machine reports
  as \<open>ARunning\<close>. It covers lines of fewer than six tokens, because with six or more
  the argument vector execvp reads is undefined (C27), and lines of fewer than 99
  characters, which one fgets reads whole (C33 for the longer ones).

  \<^bold>\<open>Not modelled.\<close> stdio buffering and the terminal (output is a list of
  events in program order); the programs the children run, whose only effect is the
  status the world gives; malloc failure and the heap's layout (a block records its
  allocated size and contents, and an overflow is stated, not simulated); the
  strerror suffix of perror; signal delivery (only the dispositions); a wait that
  returns 0, which POSIX excludes, is modelled as the loop's condition reads it.
\<close>

end
